theory Spec2Isabelle
  imports Main "HOL-Library.Word"
begin

section \<open>Control-flow analysis core of gta3sc: a shallow embedding\<close>

text \<open>
  The development follows the header that declares the block list, the procedure
  entries, the three depth-first traversals and the statement graph, and the part of
  \<^verbatim>\<open>disassembler.hpp\<close> that reads immediate strings out of an argument variant.

  Conventions.
  \<^item> \<^verbatim>\<open>size_t\<close> identifiers (\<^verbatim>\<open>BlockId\<close>, \<^verbatim>\<open>ProcId\<close>) are \<open>nat\<close>; the
    fixed-width fields are words.
  \<^item> A \<^verbatim>\<open>std::vector\<close> is a list; indexing it out of range is undefined behaviour in
    the source and the error \<open>OutOfRange\<close> here.
  \<^item> A failed \<^verbatim>\<open>assert\<close> is the error \<open>AssertFailed\<close>.
  \<^item> Recursion whose termination rests on a visited set carries fuel; running out of it
    is the error \<open>OutOfFuel\<close>, and the top-level functions are proved never to return it.
\<close>

text \<open>
  Modelled from the spec: the macro \<^verbatim>\<open>Expects\<close> and the class \<^verbatim>\<open>dynamic_bitset\<close>,
  both declared in a header that is not among these sources. The specification says the
  code meets a head with the wrong number of successors "by asserting": a failed
  \<^verbatim>\<open>Expects\<close> ends the call, here with the error \<open>ExpectsFailed\<close>. The specification
  calls the dominator sets and the visited sets bitsets over ids: a \<^verbatim>\<open>dynamic_bitset\<close>
  is a list of booleans of the size it was made with, all false at first, and reading or
  writing a bit outside that size is \<open>OutOfRange\<close>.
\<close>

datatype error =
    OutOfFuel
  | OutOfRange
  | AssertFailed
  | ExpectsFailed
  | InvalidPointer
  | EraseEnd
  | IteratorInvalidated
  | NullPointer

definition bindE :: "error + 'a \<Rightarrow> ('a \<Rightarrow> error + 'b) \<Rightarrow> error + 'b" where
  "bindE m f = (case m of Inl e \<Rightarrow> Inl e | Inr x \<Rightarrow> f x)"

subsection \<open>Segment references\<close>

datatype SegType = Main | Mission | Streamed | ExitNode

text \<open>\<^verbatim>\<open>static_cast<uint8_t>(segtype)\<close>: the enumerators are numbered in declaration order.\<close>

fun segtype_u8 :: "SegType \<Rightarrow> 8 word" where
  "segtype_u8 Main = 0"
| "segtype_u8 Mission = 1"
| "segtype_u8 Streamed = 2"
| "segtype_u8 ExitNode = 3"

record SegReference =
  reserved :: "8 word"
  segtype :: SegType
  segindex :: "16 word"
  data_index :: "32 word"

text \<open>\<^verbatim>\<open>SegReference::operator==\<close>: the padding byte \<open>reserved\<close> is not compared.\<close>

definition seg_eq :: "SegReference \<Rightarrow> SegReference \<Rightarrow> bool" where
  "seg_eq a b \<longleftrightarrow>
     data_index a = data_index b \<and> segindex a = segindex b \<and> segtype a = segtype b"

definition seg_neq :: "SegReference \<Rightarrow> SegReference \<Rightarrow> bool" where
  "seg_neq a b \<longleftrightarrow> \<not> seg_eq a b"

text \<open>\<^verbatim>\<open>SegReference::operator<\<close>.\<close>

definition seg_less :: "SegReference \<Rightarrow> SegReference \<Rightarrow> bool" where
  "seg_less a b =
     (if segtype a \<noteq> segtype b then segtype_u8 (segtype a) < segtype_u8 (segtype b)
      else if segindex a \<noteq> segindex b then segindex a < segindex b
      else data_index a < data_index b)"

text \<open>
  The order the specification describes: segment kinds ranked
  Main < Mission < Streamed < ExitNode, then the two indices as unsigned numbers,
  compared lexicographically.
\<close>

fun kind_rank :: "SegType \<Rightarrow> nat" where
  "kind_rank Main = 0"
| "kind_rank Mission = 1"
| "kind_rank Streamed = 2"
| "kind_rank ExitNode = 3"

definition seg_key :: "SegReference \<Rightarrow> nat \<times> nat \<times> nat" where
  "seg_key a = (kind_rank (segtype a), unat (segindex a), unat (data_index a))"

fun lex3 :: "nat \<times> nat \<times> nat \<Rightarrow> nat \<times> nat \<times> nat \<Rightarrow> bool" where
  "lex3 (a1, a2, a3) (b1, b2, b3) \<longleftrightarrow>
     a1 < b1 \<or> (a1 = b1 \<and> (a2 < b2 \<or> (a2 = b2 \<and> a3 < b3)))"

subsection \<open>Immediate strings of an argument variant\<close>

record DecompiledVar =
  global :: bool
  offset :: "32 word"

record DecompiledVarArray =
  base :: DecompiledVar
  index :: DecompiledVar

text \<open>
  \<^verbatim>\<open>DecompiledString\<close> is \<^verbatim>\<open>CompiledString\<close>, declared in a header outside this
  development; of its fields only \<open>storage\<close>, a \<^verbatim>\<open>std::string\<close>, is read here.
\<close>

record DecompiledString =
  storage :: string

text \<open>The float alternative carries its 32 bits; no arithmetic is done on it.\<close>

datatype ArgVariant2 =
    ArgEOAL
  | ArgInt8 "8 word"
  | ArgInt16 "16 word"
  | ArgInt32 "32 word"
  | ArgFloat "32 word"
  | ArgVar DecompiledVar
  | ArgVarArray DecompiledVarArray
  | ArgString DecompiledString

text \<open>\<^verbatim>\<open>std::find(first, last, c)\<close> as the position it returns: the first position that
  holds \<open>c\<close>, or the length when there is none.\<close>

fun std_find :: "'a list \<Rightarrow> 'a \<Rightarrow> nat" where
  "std_find [] c = 0"
| "std_find (x # xs) c = (if x = c then 0 else Suc (std_find xs c))"

definition NUL :: char where
  "NUL = CHR 0x00"

definition get_immstr_string :: "DecompiledString \<Rightarrow> string option" where
  "get_immstr_string s =
     (let nul_it = std_find (storage s) NUL in Some (take nul_it (storage s)))"

fun get_immstr :: "ArgVariant2 \<Rightarrow> string option" where
  "get_immstr ArgEOAL = None"
| "get_immstr (ArgVar v) = None"
| "get_immstr (ArgVarArray v) = None"
| "get_immstr (ArgString s) = get_immstr_string s"
| "get_immstr (ArgInt8 i) = None"
| "get_immstr (ArgInt16 i) = None"
| "get_immstr (ArgInt32 i) = None"
| "get_immstr (ArgFloat f) = None"

subsection \<open>Blocks, procedure entries and the block list\<close>

record XRefInfo =
  xref_block_id :: nat
  xref_proc_id :: nat

record ProcEntry =
  proc_type :: "8 word"
  proc_block_id :: nat
  exit_block :: "nat option"
  calls_into :: "XRefInfo list"
  called_from :: "XRefInfo list"
  spawns_script :: "XRefInfo list"
  spawned_from :: "XRefInfo list"

record Block =
  block_begin :: SegReference
  block_length :: nat
  pred :: "nat list"
  succ :: "nat list"
  dominators :: "bool list"
  post_dominators :: "bool list"

record BlockList =
  blocks :: "Block list"
  non_dummy_blocks :: "nat \<times> nat"
  main_blocks :: "nat \<times> nat"
  mission_blocks :: "(nat \<times> nat) list"
  proc_entries :: "ProcEntry list"

text \<open>\<^verbatim>\<open>BlockList::link_blocks\<close>: two \<^verbatim>\<open>emplace_back\<close>s, the second on the vector
  the first has already changed (the two blocks may be the same one).\<close>

definition link_blocks :: "BlockList \<Rightarrow> nat \<Rightarrow> nat \<Rightarrow> error + BlockList" where
  "link_blocks bl link_from link_to =
     (if link_from < length (blocks bl) \<and> link_to < length (blocks bl) then
        let bs1 = (blocks bl)[link_from :=
                    (blocks bl ! link_from)\<lparr>succ := succ (blocks bl ! link_from) @ [link_to]\<rparr>];
            bs2 = bs1[link_to := (bs1 ! link_to)\<lparr>pred := pred (bs1 ! link_to) @ [link_from]\<rparr>]
        in Inr (bl\<lparr>blocks := bs2\<rparr>)
      else Inl OutOfRange)"

text \<open>A sequence of \<open>link_blocks\<close> calls, as the edge-linking pass issues them.\<close>

fun link_blocks_seq :: "BlockList \<Rightarrow> (nat \<times> nat) list \<Rightarrow> error + BlockList" where
  "link_blocks_seq bl [] = Inr bl"
| "link_blocks_seq bl ((a, b) # ops) = bindE (link_blocks bl a b) (\<lambda>bl'. link_blocks_seq bl' ops)"

text \<open>Edge symmetry with multiplicities: \<open>A\<close> occurs in \<open>pred B\<close> as often as \<open>B\<close> occurs in
  \<open>succ A\<close>.\<close>

definition edge_symmetric :: "Block list \<Rightarrow> bool" where
  "edge_symmetric bs \<longleftrightarrow>
     (\<forall>a < length bs. \<forall>b < length bs.
        count_list (pred (bs ! b)) a = count_list (succ (bs ! a)) b)"

text \<open>
  \<^verbatim>\<open>BlockList::link_call\<close> and \<^verbatim>\<open>BlockList::link_script_spawn\<close>. The source takes the
  two procedures by reference and recovers their ids with \<^verbatim>\<open>proc_id\<close>, which asserts
  that the reference points into \<open>proc_entries\<close>; here the references are the ids.
\<close>

definition link_call :: "BlockList \<Rightarrow> nat \<Rightarrow> nat \<Rightarrow> nat \<Rightarrow> error + BlockList" where
  "link_call bl caller_block caller called =
     (if caller < length (proc_entries bl) \<and> called < length (proc_entries bl) then
        let ps1 = (proc_entries bl)[caller := (proc_entries bl ! caller)
                    \<lparr>calls_into := calls_into (proc_entries bl ! caller)
                        @ [\<lparr>xref_block_id = caller_block, xref_proc_id = called\<rparr>]\<rparr>];
            ps2 = ps1[called := (ps1 ! called)
                    \<lparr>called_from := called_from (ps1 ! called)
                        @ [\<lparr>xref_block_id = caller_block, xref_proc_id = caller\<rparr>]\<rparr>]
        in Inr (bl\<lparr>proc_entries := ps2\<rparr>)
      else Inl AssertFailed)"

definition link_script_spawn :: "BlockList \<Rightarrow> nat \<Rightarrow> nat \<Rightarrow> nat \<Rightarrow> error + BlockList" where
  "link_script_spawn bl spawner_block spawner spawned =
     (if spawner < length (proc_entries bl) \<and> spawned < length (proc_entries bl) then
        let ps1 = (proc_entries bl)[spawner := (proc_entries bl ! spawner)
                    \<lparr>spawns_script := spawns_script (proc_entries bl ! spawner)
                        @ [\<lparr>xref_block_id = spawner_block, xref_proc_id = spawned\<rparr>]\<rparr>];
            ps2 = ps1[spawned := (ps1 ! spawned)
                    \<lparr>spawned_from := spawned_from (ps1 ! spawned)
                        @ [\<lparr>xref_block_id = spawner_block, xref_proc_id = spawner\<rparr>]\<rparr>]
        in Inr (bl\<lparr>proc_entries := ps2\<rparr>)
      else Inl AssertFailed)"

datatype link_op = LinkCall nat nat nat | LinkScriptSpawn nat nat nat

fun apply_link :: "BlockList \<Rightarrow> link_op \<Rightarrow> error + BlockList" where
  "apply_link bl (LinkCall f p q) = link_call bl f p q"
| "apply_link bl (LinkScriptSpawn f p q) = link_script_spawn bl f p q"

fun apply_links :: "BlockList \<Rightarrow> link_op list \<Rightarrow> error + BlockList" where
  "apply_links bl [] = Inr bl"
| "apply_links bl (op # ops) = bindE (apply_link bl op) (\<lambda>bl'. apply_links bl' ops)"

text \<open>A block list right after block discovery: no procedure has a cross-reference yet.\<close>

definition no_xrefs :: "BlockList \<Rightarrow> bool" where
  "no_xrefs bl \<longleftrightarrow>
     list_all (\<lambda>p. calls_into p = [] \<and> called_from p = [] \<and>
                   spawns_script p = [] \<and> spawned_from p = []) (proc_entries bl)"

subsection \<open>Depth-first traversals\<close>

text \<open>
  A visitor is a callable that may carry state (the source passes lambdas that capture by
  reference); here it takes the state and returns it with its continue/stop answer. A
  visitor reads the graph it is shown and does not change it. The recursive \<^verbatim>\<open>depth_first_internal_\<close> functions return the boolean of the source
  together with the visited container and the visitor's state, both of which the source
  updates in place.
\<close>

type_synonym 's visitor = "'s \<Rightarrow> nat \<Rightarrow> bool \<times> 's"

text \<open>
  The loop over the neighbours of a block. \<open>visited\<close> is a \<^verbatim>\<open>dynamic_bitset\<close>, read
  inside its size only.
\<close>

fun depth_first_loop ::
  "(bool list \<Rightarrow> 's \<Rightarrow> nat \<Rightarrow> error + bool \<times> bool list \<times> 's) \<Rightarrow>
   bool list \<Rightarrow> 's \<Rightarrow> nat list \<Rightarrow> error + bool \<times> bool list \<times> 's" where
  "depth_first_loop rec visited st [] = Inr (True, visited, st)"
| "depth_first_loop rec visited st (next # rest) =
     (if length visited \<le> next then Inl OutOfRange
      else if \<not> visited ! next then
        (case rec visited st next of
           Inl e \<Rightarrow> Inl e
         | Inr (continue, visited', st') \<Rightarrow>
             if \<not> continue then Inr (False, visited', st')
             else depth_first_loop rec visited' st' rest)
      else depth_first_loop rec visited st rest)"

text \<open>\<^verbatim>\<open>depth_first_internal_\<close> on the control-flow graph (a name cannot end in an underscore here); the first argument is the fuel.\<close>

primrec depth_first_internal ::
  "nat \<Rightarrow> BlockList \<Rightarrow> bool \<Rightarrow> 's visitor \<Rightarrow> bool list \<Rightarrow> 's \<Rightarrow> nat \<Rightarrow>
   error + bool \<times> bool list \<times> 's" where
  "depth_first_internal 0 block_list forward visitor visited st block = Inl OutOfFuel"
| "depth_first_internal (Suc fuel) block_list forward visitor visited st block =
     (if length visited \<le> block then Inl OutOfRange
      else if visited ! block then Inl AssertFailed
      else
        let visited1 = visited[block := True];
            (continue, st1) = visitor st block
        in if \<not> continue then Inr (False, visited1, st1)
           else if length (blocks block_list) \<le> block then Inl OutOfRange
           else depth_first_loop (depth_first_internal fuel block_list forward visitor)
                  visited1 st1
                  (if forward then succ (blocks block_list ! block)
                   else pred (blocks block_list ! block)))"

text \<open>\<^verbatim>\<open>depth_first\<close> on the control-flow graph: a fresh bitset of the size of the block
  vector; the boolean of the internal call is dropped. The fuel it passes is enough
  (theorem \<open>depth_first_total\<close> below).\<close>

definition depth_first :: "BlockList \<Rightarrow> nat \<Rightarrow> bool \<Rightarrow> 's visitor \<Rightarrow> 's \<Rightarrow> error + 's" where
  "depth_first block_list start_block forward visitor st =
     (let visited = replicate (length (blocks block_list)) False
      in bindE (depth_first_internal (Suc (length (blocks block_list))) block_list forward
                  visitor visited st start_block)
           (\<lambda>(continue, visited', st'). Inr st'))"

text \<open>The call graph and the spawn graph: the tag selects the pair of lists.\<close>

datatype graph_tag = call_graph | spawn_graph

definition iter_vec :: "graph_tag \<Rightarrow> bool \<Rightarrow> ProcEntry \<Rightarrow> XRefInfo list" where
  "iter_vec tag forward proc =
     (case tag of
        call_graph \<Rightarrow> (if forward then calls_into proc else called_from proc)
      | spawn_graph \<Rightarrow> (if forward then spawns_script proc else spawned_from proc))"

fun depth_first_proc_loop ::
  "(bool list \<Rightarrow> 's \<Rightarrow> nat \<Rightarrow> error + bool \<times> bool list \<times> 's) \<Rightarrow>
   bool list \<Rightarrow> 's \<Rightarrow> XRefInfo list \<Rightarrow> error + bool \<times> bool list \<times> 's" where
  "depth_first_proc_loop rec visited st [] = Inr (True, visited, st)"
| "depth_first_proc_loop rec visited st (xref # rest) =
     (if length visited \<le> xref_proc_id xref then Inl OutOfRange
      else if \<not> visited ! xref_proc_id xref then
        (case rec visited st (xref_proc_id xref) of
           Inl e \<Rightarrow> Inl e
         | Inr (continue, visited', st') \<Rightarrow>
             if \<not> continue then Inr (False, visited', st')
             else depth_first_proc_loop rec visited' st' rest)
      else depth_first_proc_loop rec visited st rest)"

text \<open>The procedure is passed by reference in the source and by its id here;
  \<^verbatim>\<open>block_list.proc_id(proc)\<close> asserts that the reference points into \<open>proc_entries\<close>.\<close>

primrec depth_first_internal_proc ::
  "nat \<Rightarrow> graph_tag \<Rightarrow> BlockList \<Rightarrow> bool \<Rightarrow> 's visitor \<Rightarrow> bool list \<Rightarrow> 's \<Rightarrow> nat \<Rightarrow>
   error + bool \<times> bool list \<times> 's" where
  "depth_first_internal_proc 0 tag block_list forward visitor visited st proc = Inl OutOfFuel"
| "depth_first_internal_proc (Suc fuel) tag block_list forward visitor visited st proc =
     (if length (proc_entries block_list) \<le> proc then Inl AssertFailed
      else if length visited \<le> proc then Inl OutOfRange
      else if visited ! proc then Inl AssertFailed
      else
        let visited1 = visited[proc := True];
            (continue, st1) = visitor st proc
        in if \<not> continue then Inr (False, visited1, st1)
           else depth_first_proc_loop (depth_first_internal_proc fuel tag block_list forward visitor)
                  visited1 st1 (iter_vec tag forward (proc_entries block_list ! proc)))"

definition depth_first_proc ::
  "graph_tag \<Rightarrow> BlockList \<Rightarrow> nat \<Rightarrow> bool \<Rightarrow> 's visitor \<Rightarrow> 's \<Rightarrow> error + 's" where
  "depth_first_proc tag block_list start_proc forward visitor st =
     (let visited = replicate (length (proc_entries block_list)) False
      in bindE (depth_first_internal_proc (Suc (length (proc_entries block_list))) tag block_list
                  forward visitor visited st start_proc)
           (\<lambda>(continue, visited', st'). Inr st'))"

subsection \<open>Statement nodes\<close>

text \<open>
  Statement nodes live on the heap. The entries of a \<open>succ\<close> list, the two fields of a
  while node and the local variables of the functions below are \<^verbatim>\<open>shared_ptr\<close>s, which
  own the node they point to; the entries of a \<open>pred\<close> list are \<^verbatim>\<open>weak_ptr\<close>s, which do
  not. The heap is a list of cells, a pointer is an index into it, and \<^verbatim>\<open>make_shared\<close>
  appends a cell. A node is destroyed when the last \<^verbatim>\<open>shared_ptr\<close> to it is dropped:
  its cell stays in the list, marked \<open>expired\<close>, and owns nothing from then on. A
  \<^verbatim>\<open>weak_ptr\<close> to an expired cell locks to the null pointer. An index outside the heap
  stands for a \<^verbatim>\<open>shared_ptr\<close> that cannot be followed (\<open>InvalidPointer\<close>) and for a
  \<^verbatim>\<open>weak_ptr\<close> that has expired.

  The derived structs are the alternatives of \<open>StatementKind\<close>; the \<open>type\<close> tag of the
  base struct is a function of the alternative.
\<close>

datatype StatementType = TypeBlock | TypeWhile | TypeIf | TypeIfElse | TypeBreak

datatype StatementKind =
    StatementBlock nat "16 word" "16 word" bool bool
  | StatementWhile "nat option" "nat option"
  | StatementBreak

fun statement_type :: "StatementKind \<Rightarrow> StatementType" where
  "statement_type (StatementBlock block_id block_from block_until goto_break goto_continue) = TypeBlock"
| "statement_type (StatementWhile loop_head loop_tail) = TypeWhile"
| "statement_type StatementBreak = TypeBreak"

record StatementNode =
  stmt_pred :: "nat list"
  stmt_succ :: "nat list"
  kind :: StatementKind
  expired :: bool

type_synonym heap = "StatementNode list"

text \<open>The constructors: no edges, and for a block the trims at zero and both flags off.\<close>

definition new_StatementBlock :: "nat \<Rightarrow> StatementNode" where
  "new_StatementBlock block_id =
     \<lparr>stmt_pred = [], stmt_succ = [], kind = StatementBlock block_id 0 0 False False,
      expired = False\<rparr>"

definition new_StatementBreak :: StatementNode where
  "new_StatementBreak = \<lparr>stmt_pred = [], stmt_succ = [], kind = StatementBreak, expired = False\<rparr>"

definition new_StatementWhile :: StatementNode where
  "new_StatementWhile =
     \<lparr>stmt_pred = [], stmt_succ = [], kind = StatementWhile None None, expired = False\<rparr>"

text \<open>\<^verbatim>\<open>weak_ptr::lock\<close>: the node, or null when it has been destroyed.\<close>

definition lock :: "heap \<Rightarrow> nat \<Rightarrow> nat option" where
  "lock h w = (if w < length h \<and> \<not> expired (h ! w) then Some w else None)"

subsection \<open>Dropping a \<^verbatim>\<open>shared_ptr\<close>\<close>

text \<open>
  The \<^verbatim>\<open>shared_ptr\<close>s a node holds, in the order in which its destructor drops them:
  the members of the derived struct in reverse order of declaration (\<open>loop_tail\<close>, then
  \<open>loop_head\<close>), then the \<open>succ\<close> vector of the base.
\<close>

definition owned :: "StatementNode \<Rightarrow> nat list" where
  "owned node =
     (case kind node of
        StatementWhile loop_head loop_tail \<Rightarrow>
          (case loop_tail of None \<Rightarrow> [] | Some t \<Rightarrow> [t])
          @ (case loop_head of None \<Rightarrow> [] | Some a \<Rightarrow> [a])
      | _ \<Rightarrow> [])
     @ stmt_succ node"

text \<open>
  The use count of a node is not zero: a \<^verbatim>\<open>shared_ptr\<close> to it is held by a variable
  (\<open>holders\<close> lists the nodes that the variables in scope and the callers point to) or
  by a node that has not been destroyed.
\<close>

definition has_owner :: "heap \<Rightarrow> nat list \<Rightarrow> nat \<Rightarrow> bool" where
  "has_owner h holders node \<longleftrightarrow>
     node \<in> set holders \<or> list_ex (\<lambda>cell. \<not> expired cell \<and> node \<in> set (owned cell)) h"

definition destroy :: "heap \<Rightarrow> nat \<Rightarrow> heap" where
  "destroy h node = h[node := (h ! node)\<lparr>expired := True\<rparr>]"

text \<open>
  A \<^verbatim>\<open>shared_ptr\<close> to \<open>node\<close> has just been dropped (it is no longer in the heap nor
  among the \<open>holders\<close>). If that was the last one, the node is destroyed, and its
  destructor drops the pointers the node held, one after the other; those still to be
  dropped hold their nodes meanwhile. The first argument is the fuel. Dropping a pointer
  that cannot be followed does nothing. The elements of the \<open>succ\<close> vector are taken
  from the front; the order is the library's and does not change which nodes go.
\<close>

fun release_all ::
  "(nat list \<Rightarrow> heap \<Rightarrow> nat \<Rightarrow> error + heap) \<Rightarrow> nat list \<Rightarrow> heap \<Rightarrow> nat list \<Rightarrow> error + heap" where
  "release_all rec holders h [] = Inr h"
| "release_all rec holders h (node # rest) =
     bindE (rec (rest @ holders) h node) (\<lambda>h'. release_all rec holders h' rest)"

primrec release :: "nat \<Rightarrow> nat list \<Rightarrow> heap \<Rightarrow> nat \<Rightarrow> error + heap" where
  "release 0 holders h node = Inl OutOfFuel"
| "release (Suc fuel) holders h node =
     (if length h \<le> node \<or> expired (h ! node) \<or> has_owner h holders node then Inr h
      else release_all (release fuel) holders (destroy h node) (owned (h ! node)))"

definition drop_pointer :: "nat list \<Rightarrow> heap \<Rightarrow> nat \<Rightarrow> error + heap" where
  "drop_pointer holders h node = release (Suc (length h)) holders h node"

text \<open>
  The end of a scope: the local \<^verbatim>\<open>shared_ptr\<close>s (null ones among them) are dropped in
  the order given, the reverse of their declaration; those still to be dropped hold
  their nodes meanwhile.
\<close>

definition pointees :: "nat option list \<Rightarrow> nat list" where
  "pointees locals = concat (map (\<lambda>p. case p of None \<Rightarrow> [] | Some node \<Rightarrow> [node]) locals)"

fun drop_locals :: "nat list \<Rightarrow> heap \<Rightarrow> nat option list \<Rightarrow> error + heap" where
  "drop_locals holders h [] = Inr h"
| "drop_locals holders h (None # rest) = drop_locals holders h rest"
| "drop_locals holders h (Some node # rest) =
     bindE (drop_pointer (pointees rest @ holders) h node) (\<lambda>h'. drop_locals holders h' rest)"

subsection \<open>Rewiring statement nodes\<close>

text \<open>\<^verbatim>\<open>StatementNode::add_successor\<close>.\<close>

definition add_successor :: "heap \<Rightarrow> nat \<Rightarrow> nat \<Rightarrow> error + heap" where
  "add_successor h this succ_node =
     (if this < length h \<and> succ_node < length h then
        let h1 = h[this := (h ! this)\<lparr>stmt_succ := stmt_succ (h ! this) @ [succ_node]\<rparr>];
            h2 = h1[succ_node := (h1 ! succ_node)\<lparr>stmt_pred := stmt_pred (h1 ! succ_node) @ [this]\<rparr>]
        in Inr h2
      else Inl InvalidPointer)"

text \<open>
  \<^verbatim>\<open>v.erase(std::find_if(v.begin(), v.end(), p))\<close> on a vector of \<^verbatim>\<open>weak_ptr\<close>s, with the
  predicate "locks to \<open>x\<close>": the first such entry is removed; when there is none the
  source erases the end iterator, which is undefined (\<open>EraseEnd\<close>).
\<close>

fun erase_first :: "heap \<Rightarrow> nat list \<Rightarrow> nat \<Rightarrow> nat list option" where
  "erase_first h [] x = None"
| "erase_first h (w # ws) x =
     (if lock h w = Some x then Some ws else map_option (\<lambda>zs. w # zs) (erase_first h ws x))"

text \<open>\<^verbatim>\<open>it = v.erase(it)\<close> at position \<open>i\<close>.\<close>

definition erase_at :: "'a list \<Rightarrow> nat \<Rightarrow> 'a list" where
  "erase_at xs i = take i xs @ drop (Suc i) xs"

text \<open>\<^verbatim>\<open>std::replace(first, last, old, new)\<close>.\<close>

definition std_replace :: "nat list \<Rightarrow> nat \<Rightarrow> nat \<Rightarrow> nat list" where
  "std_replace xs old_value new_value = map (\<lambda>x. if x = old_value then new_value else x) xs"

text \<open>
  \<^verbatim>\<open>StatementNode::replace_successor\<close>. The loop walks \<open>this->succ\<close> by iterator; the
  body writes only the element under the iterator and the \<open>pred\<close> lists of the two other
  nodes, so the elements still to come are those of the list at entry (\<open>rest\<close>), and \<open>i\<close>
  is the position of the iterator. Both arguments are references to pointers of the
  caller, which hold \<open>old_node\<close> and \<open>new_node\<close> throughout.
\<close>

fun replace_successor_loop :: "heap \<Rightarrow> nat \<Rightarrow> nat \<Rightarrow> nat \<Rightarrow> nat \<Rightarrow> nat list \<Rightarrow> error + heap" where
  "replace_successor_loop h this old_node new_node i [] = Inr h"
| "replace_successor_loop h this old_node new_node i (x # rest) =
     (if x = old_node then
        let h1 = h[this := (h ! this)\<lparr>stmt_succ := (stmt_succ (h ! this))[i := new_node]\<rparr>];
            h2 = h1[new_node := (h1 ! new_node)\<lparr>stmt_pred := stmt_pred (h1 ! new_node) @ [this]\<rparr>]
        in (case erase_first h2 (stmt_pred (h2 ! old_node)) this of
              None \<Rightarrow> Inl EraseEnd
            | Some ps \<Rightarrow>
                replace_successor_loop (h2[old_node := (h2 ! old_node)\<lparr>stmt_pred := ps\<rparr>])
                  this old_node new_node (Suc i) rest)
      else replace_successor_loop h this old_node new_node (Suc i) rest)"

definition replace_successor :: "heap \<Rightarrow> nat \<Rightarrow> nat \<Rightarrow> nat \<Rightarrow> error + heap" where
  "replace_successor h this old_node new_node =
     (if this < length h \<and> old_node < length h \<and> new_node < length h then
        replace_successor_loop h this old_node new_node 0 (stmt_succ (h ! this))
      else Inl InvalidPointer)"

text \<open>
  \<^verbatim>\<open>StatementNode::unlink_preds\<close>. The loop walks \<open>this->pred\<close> by iterator and erases
  under it. Each entry is locked first. An entry that locks to \<open>except\<close> is stepped
  over: with the default \<open>except\<close>, the null pointer (\<open>None\<close>), these are the expired
  entries. Any other entry is dereferenced, which for an expired one is a null pointer
  dereference (\<open>NullPointer\<close>). The body also appends to \<open>new_succ->pred\<close>: were
  \<open>new_succ\<close> the node itself, the append would invalidate the iterator
  (\<open>IteratorInvalidated\<close>); otherwise \<open>this->pred\<close> changes only by the erasures, the
  elements still to come are those of the list at entry (\<open>rest\<close>), and \<open>i\<close> is the
  position of the iterator. \<open>this_ptr\<close> holds the node until the loop is over, and the
  caller's pointers hold \<open>new_succ\<close> and \<open>except\<close>.
\<close>

fun unlink_preds_loop ::
  "heap \<Rightarrow> nat \<Rightarrow> nat \<Rightarrow> nat option \<Rightarrow> nat \<Rightarrow> nat list \<Rightarrow> error + heap" where
  "unlink_preds_loop h this new_succ except i [] = Inr h"
| "unlink_preds_loop h this new_succ except i (w # rest) =
     (if lock h w = except then unlink_preds_loop h this new_succ except (Suc i) rest
      else case lock h w of
        None \<Rightarrow> Inl NullPointer
      | Some pred_ptr \<Rightarrow>
          if new_succ = this then Inl IteratorInvalidated
          else
            let h1 = h[pred_ptr := (h ! pred_ptr)
                       \<lparr>stmt_succ := std_replace (stmt_succ (h ! pred_ptr)) this new_succ\<rparr>];
                h2 = h1[new_succ := (h1 ! new_succ)\<lparr>stmt_pred := stmt_pred (h1 ! new_succ) @ [pred_ptr]\<rparr>];
                h3 = h2[this := (h2 ! this)\<lparr>stmt_pred := erase_at (stmt_pred (h2 ! this)) i\<rparr>]
            in unlink_preds_loop h3 this new_succ except i rest)"

definition unlink_preds :: "heap \<Rightarrow> nat \<Rightarrow> nat \<Rightarrow> nat option \<Rightarrow> error + heap" where
  "unlink_preds h this new_succ except =
     (if this < length h \<and> new_succ < length h then
        unlink_preds_loop h this new_succ except 0 (stmt_pred (h ! this))
      else Inl InvalidPointer)"

text \<open>\<^verbatim>\<open>++this->loop_tail->block_until\<close> on a \<^verbatim>\<open>uint16_t\<close>.\<close>

definition increment_block_until :: "heap \<Rightarrow> nat \<Rightarrow> error + heap" where
  "increment_block_until h node =
     (if length h \<le> node then Inl InvalidPointer
      else case kind (h ! node) of
        StatementBlock block_id block_from block_until goto_break goto_continue \<Rightarrow>
          Inr (h[node := (h ! node)
                 \<lparr>kind := StatementBlock block_id block_from (block_until + 1) goto_break goto_continue\<rparr>])
      | _ \<Rightarrow> Inl InvalidPointer)"

definition is_StatementBlock :: "heap \<Rightarrow> nat \<Rightarrow> bool" where
  "is_StatementBlock h node \<longleftrightarrow>
     node < length h \<and> statement_type (kind (h ! node)) = TypeBlock"

text \<open>
  The two assignments at the head of \<^verbatim>\<open>StatementWhile::setup\<close>. An assignment to a
  \<^verbatim>\<open>shared_ptr\<close> drops the pointer it overwrites; on a node fresh from \<^verbatim>\<open>make_shared\<close>
  that is the null pointer. \<open>this_ptr\<close> and the two arguments hold their nodes.
\<close>

definition assign_loop_head :: "nat list \<Rightarrow> heap \<Rightarrow> nat \<Rightarrow> nat \<Rightarrow> error + heap" where
  "assign_loop_head holders h this node =
     (case kind (h ! this) of
        StatementWhile loop_head loop_tail \<Rightarrow>
          let h' = h[this := (h ! this)\<lparr>kind := StatementWhile (Some node) loop_tail\<rparr>]
          in (case loop_head of None \<Rightarrow> Inr h' | Some old \<Rightarrow> drop_pointer holders h' old)
      | _ \<Rightarrow> Inl InvalidPointer)"

definition assign_loop_tail :: "nat list \<Rightarrow> heap \<Rightarrow> nat \<Rightarrow> nat \<Rightarrow> error + heap" where
  "assign_loop_tail holders h this node =
     (case kind (h ! this) of
        StatementWhile loop_head loop_tail \<Rightarrow>
          let h' = h[this := (h ! this)\<lparr>kind := StatementWhile loop_head (Some node)\<rparr>]
          in (case loop_tail of None \<Rightarrow> Inr h' | Some old \<Rightarrow> drop_pointer holders h' old)
      | _ \<Rightarrow> Inl InvalidPointer)"

text \<open>
  The temporary \<^verbatim>\<open>shared_ptr\<close> that \<^verbatim>\<open>make_shared\<close> returned in an argument list is
  dropped at the end of the full expression. The node is new and holds no pointer, so
  nothing follows when it is destroyed.
\<close>

definition drop_temporary :: "heap \<Rightarrow> nat \<Rightarrow> heap" where
  "drop_temporary h node = (if has_owner h [] node then h else destroy h node)"

text \<open>
  \<^verbatim>\<open>StatementWhile::setup\<close> (\<open>setup_while\<close> here, the bare name being taken).
  \<open>this\<close> points to a while node and the two arguments to
  block nodes (their static types in the source). \<open>held\<close> lists the nodes that pointers
  of the callers hold. The break node is made by
  \<^verbatim>\<open>make_shared\<close> in the argument list of \<^verbatim>\<open>replace_successor\<close>, after
  \<^verbatim>\<open>unlink_preds\<close> has run, and its temporary is dropped when \<^verbatim>\<open>replace_successor\<close>
  has returned. At the end the local \<open>break_node\<close> is dropped, whose node the while node
  has just taken as its successor.
\<close>

definition setup_while :: "nat list \<Rightarrow> heap \<Rightarrow> nat \<Rightarrow> nat \<Rightarrow> nat \<Rightarrow> error + heap" where
  "setup_while held h this stmt_loop_head stmt_loop_tail =
     (if \<not> (this < length h \<and> statement_type (kind (h ! this)) = TypeWhile
            \<and> is_StatementBlock h stmt_loop_head \<and> is_StatementBlock h stmt_loop_tail)
      then Inl InvalidPointer
      else
        let holders = this # stmt_loop_head # stmt_loop_tail # held
        in bindE (assign_loop_head holders h this stmt_loop_head) (\<lambda>ha.
           bindE (assign_loop_tail holders ha this stmt_loop_tail) (\<lambda>h0.
             if length (stmt_succ (h0 ! stmt_loop_head)) \<noteq> 2 then Inl ExpectsFailed
             else
               let break_node = stmt_succ (h0 ! stmt_loop_head) ! 0
               in bindE (unlink_preds h0 stmt_loop_head this (Some stmt_loop_tail)) (\<lambda>h1.
                    let new_break = length h1;
                        h2 = h1 @ [new_StatementBreak]
                    in bindE (replace_successor h2 stmt_loop_head break_node new_break) (\<lambda>h3.
                         bindE (add_successor (drop_temporary h3 new_break) this break_node) (\<lambda>h4.
                           increment_block_until h4 stmt_loop_tail))))))"

text \<open>\<^verbatim>\<open>StatementWhile::continue_node\<close> and \<^verbatim>\<open>StatementWhile::break_node\<close>.\<close>

definition continue_node :: "heap \<Rightarrow> nat \<Rightarrow> error + nat option" where
  "continue_node h this =
     (if length h \<le> this then Inl InvalidPointer
      else case kind (h ! this) of
        StatementWhile loop_head loop_tail \<Rightarrow> Inr loop_head
      | _ \<Rightarrow> Inl InvalidPointer)"

definition break_node :: "heap \<Rightarrow> nat \<Rightarrow> error + nat" where
  "break_node h this =
     (if length h \<le> this then Inl InvalidPointer
      else if length (stmt_succ (h ! this)) \<noteq> 1 then Inl ExpectsFailed
      else Inr (stmt_succ (h ! this) ! 0))"

subsection \<open>Depth-first on statements\<close>

text \<open>
  \<open>visited\<close> is a \<^verbatim>\<open>std::map<const StatementNode*, bool>\<close> read and written through
  \<^verbatim>\<open>operator[]\<close>, which answers false for a key it has not seen: a function to \<open>bool\<close>.
\<close>

fun depth_first_stmt_loop ::
  "((nat \<Rightarrow> bool) \<Rightarrow> 's \<Rightarrow> nat \<Rightarrow> error + bool \<times> (nat \<Rightarrow> bool) \<times> 's) \<Rightarrow>
   (nat \<Rightarrow> bool) \<Rightarrow> 's \<Rightarrow> nat list \<Rightarrow> error + bool \<times> (nat \<Rightarrow> bool) \<times> 's" where
  "depth_first_stmt_loop rec visited st [] = Inr (True, visited, st)"
| "depth_first_stmt_loop rec visited st (next # rest) =
     (if \<not> visited next then
        (case rec visited st next of
           Inl e \<Rightarrow> Inl e
         | Inr (continue, visited', st') \<Rightarrow>
             if \<not> continue then Inr (False, visited', st')
             else depth_first_stmt_loop rec visited' st' rest)
      else depth_first_stmt_loop rec visited st rest)"

primrec depth_first_internal_stmt ::
  "nat \<Rightarrow> heap \<Rightarrow> bool \<Rightarrow> 's visitor \<Rightarrow> (nat \<Rightarrow> bool) \<Rightarrow> 's \<Rightarrow> nat \<Rightarrow>
   error + bool \<times> (nat \<Rightarrow> bool) \<times> 's" where
  "depth_first_internal_stmt 0 h forward visitor visited st node = Inl OutOfFuel"
| "depth_first_internal_stmt (Suc fuel) h forward visitor visited st node =
     (if length h \<le> node then Inl InvalidPointer
      else if visited node then Inl AssertFailed
      else
        let visited1 = visited(node := True);
            (continue, st1) = visitor st node
        in if \<not> continue then Inr (False, visited1, st1)
           else if \<not> forward then Inl ExpectsFailed
           else depth_first_stmt_loop (depth_first_internal_stmt fuel h forward visitor)
                  visited1 st1 (stmt_succ (h ! node)))"

definition depth_first_stmt :: "heap \<Rightarrow> nat \<Rightarrow> bool \<Rightarrow> 's visitor \<Rightarrow> 's \<Rightarrow> error + 's" where
  "depth_first_stmt h start_node forward visitor st =
     bindE (depth_first_internal_stmt (Suc (length h)) h forward visitor (\<lambda>node. False) st start_node)
       (\<lambda>(continue, visited', st'). Inr st')"

text \<open>
  To speak about the calls a traversal makes to its visitor, the visitor is wrapped so
  that it also appends each call, with its answer, to a log.
\<close>

definition record_calls :: "'s visitor \<Rightarrow> ('s \<times> (nat \<times> bool) list) visitor" where
  "record_calls visitor =
     (\<lambda>(st, log) node. let (continue, st') = visitor st node in (continue, (st', log @ [(node, continue)])))"

subsection \<open>From blocks to statements\<close>

text \<open>\<^verbatim>\<open>std::map::emplace\<close> keeps the old entry when the key is present.\<close>

definition map_emplace :: "(nat \<rightharpoonup> nat) \<Rightarrow> nat \<Rightarrow> nat \<Rightarrow> (nat \<rightharpoonup> nat)" where
  "map_emplace m k v = (case m k of None \<Rightarrow> m(k \<mapsto> v) | Some old \<Rightarrow> m)"

type_synonym stmt_state = "heap \<times> (nat \<rightharpoonup> nat)"

fun to_statements_loop ::
  "(nat \<Rightarrow> stmt_state \<Rightarrow> error + nat \<times> stmt_state) \<Rightarrow> nat \<Rightarrow> nat list \<Rightarrow> stmt_state \<Rightarrow>
   error + stmt_state" where
  "to_statements_loop rec node [] s = Inr s"
| "to_statements_loop rec node (succ_id # rest) (h, block2node) =
     (case block2node succ_id of
        Some found \<Rightarrow>
          bindE (add_successor h node found) (\<lambda>h'.
            to_statements_loop rec node rest (h', block2node))
      | None \<Rightarrow>
          bindE (rec succ_id (h, block2node)) (\<lambda>(next_node, h', block2node').
            bindE (add_successor h' node next_node) (\<lambda>h''.
              to_statements_loop rec node rest (h'', block2node'))))"

text \<open>\<^verbatim>\<open>to_statements_internal\<close>; the first argument is the fuel.\<close>

primrec to_statements_internal ::
  "nat \<Rightarrow> BlockList \<Rightarrow> nat \<Rightarrow> stmt_state \<Rightarrow> error + nat \<times> stmt_state" where
  "to_statements_internal 0 block_list block_id s = Inl OutOfFuel"
| "to_statements_internal (Suc fuel) block_list block_id s =
     (case s of (h, block2node) \<Rightarrow>
        if length (blocks block_list) \<le> block_id then Inl OutOfRange
        else
          let this_block = blocks block_list ! block_id;
              node = length h;
              h1 = h @ [new_StatementBlock block_id];
              block2node1 = map_emplace block2node block_id node
          in bindE (to_statements_loop (to_statements_internal fuel block_list) node
                      (succ this_block) (h1, block2node1))
               (\<lambda>s'. Inr (node, s')))"

text \<open>
  \<^verbatim>\<open>to_statements\<close>: the entry node, and the heap it lives in. When it returns, the
  map \<open>block2node\<close> goes out of scope. Every node the map pointed to is the entry, which
  is returned, or was made a successor of the node whose call made it, so that no node
  is destroyed (\<open>to_statements_owned\<close> below).
\<close>

definition to_statements :: "BlockList \<Rightarrow> nat \<Rightarrow> error + nat \<times> heap" where
  "to_statements block_list entry_point =
     bindE (to_statements_internal (Suc (length (blocks block_list))) block_list entry_point
              ([], Map.empty))
       (\<lambda>(node, h, block2node). Inr (node, h))"

subsection \<open>Folding loops into while nodes\<close>

record Loop =
  head :: nat
  tail :: nat
  loop_blocks :: "nat list"

text \<open>The visitor of \<^verbatim>\<open>structure_dowhile\<close>; its state is the pair of pointers
  \<open>stmt_loop_head\<close>, \<open>stmt_loop_tail\<close> it captures (null at the start).\<close>

definition find_loop_nodes :: "heap \<Rightarrow> Loop \<Rightarrow> (nat option \<times> nat option) visitor" where
  "find_loop_nodes h loop = (\<lambda>(stmt_loop_head, stmt_loop_tail) node.
     case kind (h ! node) of
       StatementBlock block_id block_from block_until goto_break goto_continue \<Rightarrow>
         let stmt_loop_head' = (if block_id = head loop then Some node else stmt_loop_head);
             stmt_loop_tail' = (if block_id = tail loop then Some node else stmt_loop_tail)
         in (\<not> (stmt_loop_head' \<noteq> None \<and> stmt_loop_tail' \<noteq> None), (stmt_loop_head', stmt_loop_tail'))
     | _ \<Rightarrow> (True, (stmt_loop_head, stmt_loop_tail)))"

text \<open>
  The body of the \<^verbatim>\<open>for\<close> of \<^verbatim>\<open>structure_dowhile\<close>, for one loop. \<open>entry_node\<close> is a
  parameter passed by value, so the function holds the entry itself; \<open>held\<close> lists the
  nodes that pointers of the callers hold. The body ends, also by \<^verbatim>\<open>continue\<close>, with
  its locals going out of scope: \<open>node_while\<close> if it was reached, \<open>stmt_loop_tail\<close>,
  \<open>stmt_loop_head\<close>. The assignment to \<open>entry_node\<close> overwrites a pointer to the head
  node, which \<open>stmt_loop_head\<close> still holds.
\<close>

definition structure_loop :: "nat list \<Rightarrow> heap \<Rightarrow> nat \<Rightarrow> Loop \<Rightarrow> error + heap \<times> nat" where
  "structure_loop held h entry_node loop =
     bindE (depth_first_stmt h entry_node True (find_loop_nodes h loop) (None, None))
       (\<lambda>(stmt_loop_head, stmt_loop_tail).
          case (stmt_loop_head, stmt_loop_tail) of
            (Some head_node, Some tail_node) \<Rightarrow>
              let node_while = length h;
                  h1 = h @ [new_StatementWhile]
              in bindE (setup_while (entry_node # held) h1 node_while head_node tail_node) (\<lambda>h2.
                   let entry_node' = (if entry_node = head_node then node_while else entry_node)
                   in bindE (drop_locals (entry_node' # held) h2
                               [Some node_while, stmt_loop_tail, stmt_loop_head]) (\<lambda>h3.
                        Inr (h3, entry_node')))
          | _ \<Rightarrow>
              bindE (drop_locals (entry_node # held) h [stmt_loop_tail, stmt_loop_head]) (\<lambda>h'.
                Inr (h', entry_node)))"

fun structure_dowhile ::
  "nat list \<Rightarrow> BlockList \<Rightarrow> heap \<Rightarrow> nat \<Rightarrow> Loop list \<Rightarrow> error + heap \<times> nat" where
  "structure_dowhile held block_list h entry_node [] = Inr (h, entry_node)"
| "structure_dowhile held block_list h entry_node (loop # loops) =
     bindE (structure_loop held h entry_node loop) (\<lambda>(h', entry_node').
       structure_dowhile held block_list h' entry_node' loops)"

subsection \<open>Notions used to state the properties\<close>

text \<open>The positions of a bitset that are still clear.\<close>

definition unvisited :: "bool list \<Rightarrow> nat set" where
  "unvisited visited = {i. i < length visited \<and> \<not> visited ! i}"

text \<open>The nodes of a heap that a visited map has not marked.\<close>

definition unvisited_nodes :: "heap \<Rightarrow> (nat \<Rightarrow> bool) \<Rightarrow> nat set" where
  "unvisited_nodes h visited = {i. i < length h \<and> \<not> visited i}"

text \<open>Every neighbour a traversal can read lies inside the graph.\<close>

definition cfg_closed :: "BlockList \<Rightarrow> bool \<Rightarrow> bool" where
  "cfg_closed block_list forward \<longleftrightarrow>
     list_all (\<lambda>b. list_all (\<lambda>x. x < length (blocks block_list))
                  (if forward then succ b else pred b)) (blocks block_list)"

definition xref_closed :: "graph_tag \<Rightarrow> BlockList \<Rightarrow> bool \<Rightarrow> bool" where
  "xref_closed tag block_list forward \<longleftrightarrow>
     list_all (\<lambda>p. list_all (\<lambda>x. xref_proc_id x < length (proc_entries block_list))
                  (iter_vec tag forward p)) (proc_entries block_list)"

definition heap_closed :: "heap \<Rightarrow> bool" where
  "heap_closed h \<longleftrightarrow> list_all (\<lambda>n. list_all (\<lambda>x. x < length h) (stmt_succ n)) h"

definition preds_closed :: "heap \<Rightarrow> bool" where
  "preds_closed h \<longleftrightarrow> list_all (\<lambda>n. list_all (\<lambda>x. x < length h) (stmt_pred n)) h"

text \<open>In a log of visitor calls, only the last call may have answered stop.\<close>

definition stop_is_last :: "(nat \<times> bool) list \<Rightarrow> bool" where
  "stop_is_last log \<longleftrightarrow> list_all snd (butlast log)"

text \<open>
  What one (possibly nested) traversal step does to the log, given the set \<open>U\<close> of
  unvisited nodes before and \<open>U'\<close> after, and the boolean \<open>c\<close> it returns: it appends
  calls on distinct nodes of \<open>U\<close>, removes exactly those from \<open>U\<close>, only its last call
  may have answered stop, and it returns true exactly when none did.
\<close>

definition log_step ::
  "nat set \<Rightarrow> nat set \<Rightarrow> (nat \<times> bool) list \<Rightarrow> (nat \<times> bool) list \<Rightarrow> bool \<Rightarrow> bool" where
  "log_step U U' log log' c \<longleftrightarrow>
     (\<exists>new. log' = log @ new \<and> distinct (map fst new) \<and> fst ` set new \<subseteq> U
        \<and> U' = U - fst ` set new \<and> stop_is_last new \<and> (c \<longleftrightarrow> list_all snd new))"

text \<open>Dropping the log from the result of a run with a recording visitor.\<close>

definition forget_log :: "error + 's \<times> (nat \<times> bool) list \<Rightarrow> error + 's" where
  "forget_log r = map_sum id fst r"

text \<open>The edges of the control-flow graph, and the blocks reachable from an entry.\<close>

definition cfg_edges :: "BlockList \<Rightarrow> (nat \<times> nat) set" where
  "cfg_edges block_list =
     {(a, b). a < length (blocks block_list) \<and> b \<in> set (succ (blocks block_list ! a))}"

definition reachable_blocks :: "BlockList \<Rightarrow> nat \<Rightarrow> nat set" where
  "reachable_blocks block_list entry = (cfg_edges block_list)\<^sup>* `` {entry}"

text \<open>In a statement heap, \<open>i\<close> occurs in \<open>pred j\<close> as often as \<open>j\<close> occurs in \<open>succ i\<close>.\<close>

definition stmt_symmetric :: "heap \<Rightarrow> bool" where
  "stmt_symmetric h \<longleftrightarrow>
     (\<forall>i < length h. \<forall>j < length h.
        count_list (stmt_pred (h ! j)) i = count_list (stmt_succ (h ! i)) j)"

text \<open>
  The invariant of \<open>to_statements_internal\<close>: \<open>block2node\<close> maps block ids to the
  nodes made for them and every node of the heap is the node of its block; \<open>succ\<close> edges
  stay inside the heap and are mirrored by the \<open>pred\<close> lists; no node has been destroyed.
\<close>

definition stmt_inv :: "BlockList \<Rightarrow> stmt_state \<Rightarrow> bool" where
  "stmt_inv block_list s \<longleftrightarrow>
     (\<forall>b n. snd s b = Some n \<longrightarrow>
        b < length (blocks block_list) \<and> n < length (fst s)
        \<and> kind (fst s ! n) = StatementBlock b 0 0 False False)
     \<and> (\<forall>n < length (fst s). \<exists>b. kind (fst s ! n) = StatementBlock b 0 0 False False
            \<and> snd s b = Some n)
     \<and> heap_closed (fst s) \<and> preds_closed (fst s) \<and> stmt_symmetric (fst s)
     \<and> list_all (\<lambda>cell. \<not> expired cell) (fst s)"

text \<open>A node is complete when its successors are the nodes of its block's successors,
  in order.\<close>

definition complete :: "BlockList \<Rightarrow> stmt_state \<Rightarrow> nat \<Rightarrow> bool" where
  "complete block_list s n \<longleftrightarrow>
     (\<exists>b. kind (fst s ! n) = StatementBlock b 0 0 False False
        \<and> map Some (stmt_succ (fst s ! n)) = map (snd s) (succ (blocks block_list ! b)))"

text \<open>The blocks that have no node yet.\<close>

definition unregistered :: "BlockList \<Rightarrow> (nat \<rightharpoonup> nat) \<Rightarrow> nat set" where
  "unregistered block_list m = {b. b < length (blocks block_list) \<and> m b = None}"

text \<open>What a run of the loop of \<open>to_statements_internal\<close> for the node \<open>node\<close> over the
  successor ids \<open>rest\<close> achieves, from the state \<open>s\<close> to the state \<open>s'\<close>.\<close>

definition loop_post :: "BlockList \<Rightarrow> nat \<Rightarrow> nat list \<Rightarrow> stmt_state \<Rightarrow> stmt_state \<Rightarrow> bool" where
  "loop_post block_list node rest s s' \<longleftrightarrow>
     stmt_inv block_list s' \<and> snd s \<subseteq>\<^sub>m snd s' \<and> length (fst s) \<le> length (fst s')
     \<and> (\<forall>n < length (fst s). n \<noteq> node \<longrightarrow> stmt_succ (fst s' ! n) = stmt_succ (fst s ! n))
     \<and> map Some (stmt_succ (fst s' ! node)) = map Some (stmt_succ (fst s ! node)) @ map (snd s') rest
     \<and> (\<forall>n. length (fst s) \<le> n \<and> n < length (fst s') \<longrightarrow> complete block_list s' n)
     \<and> dom (snd s') \<subseteq> dom (snd s) \<union> (cfg_edges block_list)\<^sup>* `` set rest"

text \<open>What a call of \<open>to_statements_internal\<close> on the block \<open>b\<close> achieves.\<close>

definition internal_post :: "BlockList \<Rightarrow> nat \<Rightarrow> stmt_state \<Rightarrow> stmt_state \<Rightarrow> bool" where
  "internal_post block_list b s s' \<longleftrightarrow>
     stmt_inv block_list s' \<and> snd s \<subseteq>\<^sub>m snd s' \<and> length (fst s) < length (fst s')
     \<and> snd s' b = Some (length (fst s))
     \<and> (\<forall>n < length (fst s). stmt_succ (fst s' ! n) = stmt_succ (fst s ! n))
     \<and> (\<forall>n. length (fst s) \<le> n \<and> n < length (fst s') \<longrightarrow> complete block_list s' n)
     \<and> dom (snd s') \<subseteq> dom (snd s) \<union> (cfg_edges block_list)\<^sup>* `` {b}"

text \<open>The owning edges of a statement heap.\<close>

definition succ_edges :: "heap \<Rightarrow> (nat \<times> nat) set" where
  "succ_edges h = {(i, j). i < length h \<and> j \<in> set (stmt_succ (h ! i))}"

text \<open>The edges of the control-flow graph that leave a block reachable from the entry.\<close>

definition reachable_edges :: "BlockList \<Rightarrow> nat \<Rightarrow> (nat \<times> nat) set" where
  "reachable_edges block_list entry =
     {(a, b). (a, b) \<in> cfg_edges block_list \<and> a \<in> reachable_blocks block_list entry}"

text \<open>What the two pointer-rewiring loops leave alone: the size of the heap, the kind of
  every node, the number of successors of every node, and which nodes have been
  destroyed.\<close>

definition same_shape :: "heap \<Rightarrow> heap \<Rightarrow> bool" where
  "same_shape h h' \<longleftrightarrow>
     length h' = length h \<and> (\<forall>n. kind (h' ! n) = kind (h ! n))
     \<and> (\<forall>n. length (stmt_succ (h' ! n)) = length (stmt_succ (h ! n)))
     \<and> (\<forall>n. expired (h' ! n) = expired (h ! n))"

text \<open>
  A node is located for a block id when it is a block statement with that id that can be
  reached from the entry node over \<open>succ\<close> edges.
\<close>

definition located :: "heap \<Rightarrow> nat \<Rightarrow> nat \<Rightarrow> nat \<Rightarrow> bool" where
  "located h entry_node b n \<longleftrightarrow>
     (entry_node, n) \<in> (succ_edges h)\<^sup>* \<and> n < length h
     \<and> (\<exists>f u gb gc. kind (h ! n) = StatementBlock b f u gb gc)"

text \<open>Between the visited maps before and after a traversal: marks are kept, and every
  newly marked node lies in the heap and has all its successors marked.\<close>

definition marks_closed :: "heap \<Rightarrow> (nat \<Rightarrow> bool) \<Rightarrow> (nat \<Rightarrow> bool) \<Rightarrow> bool" where
  "marks_closed h v v' \<longleftrightarrow>
     (\<forall>x. v x \<longrightarrow> v' x)
     \<and> (\<forall>x. v' x \<and> \<not> v x \<longrightarrow> x < length h \<and> (\<forall>y \<in> set (stmt_succ (h ! x)). v' y))"

text \<open>Between a visited map and the two pointers of the search of \<open>structure_dowhile\<close>:
  a pointer is set once a marked node carries its block id.\<close>

definition seen_ids :: "heap \<Rightarrow> Loop \<Rightarrow> (nat \<Rightarrow> bool) \<Rightarrow> nat option \<times> nat option \<Rightarrow> bool" where
  "seen_ids h loop v s \<longleftrightarrow>
     (\<forall>m. v m \<longrightarrow> (\<exists>f u gb gc. kind (h ! m) = StatementBlock (head loop) f u gb gc) \<longrightarrow> fst s \<noteq> None)
     \<and> (\<forall>m. v m \<longrightarrow> (\<exists>f u gb gc. kind (h ! m) = StatementBlock (tail loop) f u gb gc) \<longrightarrow> snd s \<noteq> None)"


text \<open>The nodes of a heap that have not been destroyed.\<close>

definition alive :: "heap \<Rightarrow> nat set" where
  "alive h = {n. n < length h \<and> \<not> expired (h ! n)}"

text \<open>Between two heaps: nothing has changed but that nodes may have been destroyed.\<close>

definition only_expiry :: "heap \<Rightarrow> heap \<Rightarrow> bool" where
  "only_expiry h h' \<longleftrightarrow>
     length h' = length h
     \<and> (\<forall>n. stmt_pred (h' ! n) = stmt_pred (h ! n) \<and> stmt_succ (h' ! n) = stmt_succ (h ! n)
            \<and> kind (h' ! n) = kind (h ! n))
     \<and> (\<forall>n < length h. expired (h ! n) \<longrightarrow> expired (h' ! n))"

text \<open>No \<^verbatim>\<open>shared_ptr\<close> of a node that has not been destroyed points to one that has,
  or outside the heap.\<close>

definition no_dangling :: "heap \<Rightarrow> bool" where
  "no_dangling h \<longleftrightarrow>
     (\<forall>n < length h. \<not> expired (h ! n) \<longrightarrow>
        (\<forall>x \<in> set (owned (h ! n)). x < length h \<and> \<not> expired (h ! x)))"
subsection \<open>Example graphs\<close>

definition seg_a :: SegReference where
  "seg_a = \<lparr>reserved = 0, segtype = Main, segindex = 0, data_index = 7\<rparr>"
definition seg_b :: SegReference where
  "seg_b = \<lparr>reserved = 9, segtype = Mission, segindex = 2, data_index = 1\<rparr>"
definition seg_c :: SegReference where
  "seg_c = \<lparr>reserved = 0, segtype = Mission, segindex = 2, data_index = 5\<rparr>"

definition fresh_block :: Block where
  "fresh_block = \<lparr>block_begin = \<lparr>reserved = 0, segtype = Main, segindex = 0, data_index = 0\<rparr>,
     block_length = 1, pred = [], succ = [], dominators = [], post_dominators = []\<rparr>"

definition two_blocks :: BlockList where
  "two_blocks = \<lparr>blocks = [fresh_block, fresh_block], non_dummy_blocks = (0, 2),
     main_blocks = (0, 2), mission_blocks = [], proc_entries = []\<rparr>"

definition fresh_proc :: "nat \<Rightarrow> ProcEntry" where
  "fresh_proc b = \<lparr>proc_type = 2, proc_block_id = b, exit_block = None, calls_into = [],
     called_from = [], spawns_script = [], spawned_from = []\<rparr>"

definition two_procs :: BlockList where
  "two_procs = \<lparr>blocks = [], non_dummy_blocks = (0, 0), main_blocks = (0, 0),
     mission_blocks = [], proc_entries = [fresh_proc 0, fresh_proc 3]\<rparr>"

definition mk_block :: "nat list \<Rightarrow> nat list \<Rightarrow> Block" where
  "mk_block ps ss = \<lparr>block_begin = \<lparr>reserved = 0, segtype = Main, segindex = 0, data_index = 0\<rparr>,
     block_length = 1, pred = ps, succ = ss, dominators = [], post_dominators = []\<rparr>"

definition mk_cfg :: "Block list \<Rightarrow> BlockList" where
  "mk_cfg bs = \<lparr>blocks = bs, non_dummy_blocks = (0, length bs),
     main_blocks = (0, length bs), mission_blocks = [], proc_entries = []\<rparr>"

text \<open>Two blocks that jump to each other.\<close>

definition cfg_cycle :: BlockList where
  "cfg_cycle = mk_cfg [mk_block [1] [1], mk_block [0] [0]]"

text \<open>A while loop: block 0 tests and leaves to block 2 or enters the body, block 1,
  which jumps back.\<close>

definition cfg_while :: BlockList where
  "cfg_while = mk_cfg [mk_block [1] [2, 1], mk_block [0] [0], mk_block [0] []]"

text \<open>Block 0 branches to itself or falls through to block 1, which branches back to
  block 0 or falls through to block 2.\<close>

definition cfg_self :: BlockList where
  "cfg_self = mk_cfg [mk_block [0, 1] [0, 1], mk_block [0] [0, 2], mk_block [1] []]"

text \<open>Three procedures: 0 calls 1 and 2, 1 calls 0, and 0 spawns 2.\<close>

definition mk_proc :: "XRefInfo list \<Rightarrow> XRefInfo list \<Rightarrow> XRefInfo list \<Rightarrow> XRefInfo list \<Rightarrow> ProcEntry" where
  "mk_proc ci cf ss sf = \<lparr>proc_type = 2, proc_block_id = 0, exit_block = None, calls_into = ci,
     called_from = cf, spawns_script = ss, spawned_from = sf\<rparr>"

definition xref :: "nat \<Rightarrow> nat \<Rightarrow> XRefInfo" where
  "xref f p = \<lparr>xref_block_id = f, xref_proc_id = p\<rparr>"

definition three_procs :: BlockList where
  "three_procs = \<lparr>blocks = [], non_dummy_blocks = (0, 0), main_blocks = (0, 0), mission_blocks = [],
     proc_entries =
       [mk_proc [xref 0 1, xref 0 2] [xref 3 0] [xref 1 2] [],
        mk_proc [xref 3 0] [xref 0 1] [] [],
        mk_proc [] [xref 0 2] [] [xref 1 0]]\<rparr>"

text \<open>A visitor without state that answers stop on one node.\<close>

definition stop_at :: "nat \<Rightarrow> unit visitor" where
  "stop_at k = (\<lambda>st node. (node \<noteq> k, st))"

text \<open>A heap of two block statements that are each other's successor.\<close>

definition heap_cycle :: heap where
  "heap_cycle =
     [\<lparr>stmt_pred = [1], stmt_succ = [1], kind = StatementBlock 0 0 0 False False, expired = False\<rparr>,
      \<lparr>stmt_pred = [0], stmt_succ = [0], kind = StatementBlock 1 0 0 False False, expired = False\<rparr>]"

text \<open>The statements of \<open>cfg_while\<close>: node 0 is the head (block 0), node 1 the exit
  (block 2), node 2 the body and tail (block 1).\<close>

definition heap_while :: heap where
  "heap_while =
     [\<lparr>stmt_pred = [2], stmt_succ = [1, 2], kind = StatementBlock 0 0 0 False False, expired = False\<rparr>,
      \<lparr>stmt_pred = [0], stmt_succ = [], kind = StatementBlock 2 0 0 False False, expired = False\<rparr>,
      \<lparr>stmt_pred = [0], stmt_succ = [0], kind = StatementBlock 1 0 0 False False, expired = False\<rparr>]"

text \<open>The same after the loop (0, 1) has been folded: node 3 is the while node, node 4
  the break node.\<close>

definition heap_while_folded :: heap where
  "heap_while_folded =
     [\<lparr>stmt_pred = [2], stmt_succ = [4, 2], kind = StatementBlock 0 0 0 False False, expired = False\<rparr>,
      \<lparr>stmt_pred = [3], stmt_succ = [], kind = StatementBlock 2 0 0 False False, expired = False\<rparr>,
      \<lparr>stmt_pred = [0], stmt_succ = [0], kind = StatementBlock 1 0 1 False False, expired = False\<rparr>,
      \<lparr>stmt_pred = [], stmt_succ = [1], kind = StatementWhile (Some 0) (Some 2), expired = False\<rparr>,
      \<lparr>stmt_pred = [0], stmt_succ = [], kind = StatementBreak, expired = False\<rparr>]"



definition loop_0_1 :: Loop where
  "loop_0_1 = \<lparr>head = 0, tail = 1, loop_blocks = [0, 1]\<rparr>"

definition loop_7_1 :: Loop where
  "loop_7_1 = \<lparr>head = 7, tail = 1, loop_blocks = [7, 1]\<rparr>"


text \<open>
  Two loops one after the other: block 0 branches to block 1 or block 3; blocks 1 and 2
  jump to each other, block 2 leaving to block 3; blocks 3 and 4 jump to each other,
  block 3 leaving to block 5.
\<close>

definition cfg_two_loops :: BlockList where
  "cfg_two_loops = mk_cfg [mk_block [] [1, 3], mk_block [0, 2] [2], mk_block [1] [3, 1],
     mk_block [0, 2, 4] [5, 4], mk_block [3] [3], mk_block [3] []]"

definition loop_2_1 :: Loop where
  "loop_2_1 = \<lparr>head = 2, tail = 1, loop_blocks = [2, 1]\<rparr>"

definition loop_3_4 :: Loop where
  "loop_3_4 = \<lparr>head = 3, tail = 4, loop_blocks = [3, 4]\<rparr>"

text \<open>A while loop after an entry block: block 0 falls into block 1, which tests and leaves
  to block 3 or enters the body, block 2, which jumps back.\<close>

definition cfg_entry_while :: BlockList where
  "cfg_entry_while = mk_cfg [mk_block [] [1], mk_block [0, 2] [3, 2], mk_block [1] [1], mk_block [1] []]"

definition loop_1_2 :: Loop where
  "loop_1_2 = \<lparr>head = 1, tail = 2, loop_blocks = [1, 2]\<rparr>"

text \<open>The statements of \<open>cfg_entry_while\<close>: node 0 is the entry (block 0), node 1 the head
  (block 1), node 2 the exit (block 3), node 3 the body and tail (block 2).\<close>

definition heap_entry_while :: heap where
  "heap_entry_while =
     [\<lparr>stmt_pred = [], stmt_succ = [1], kind = StatementBlock 0 0 0 False False, expired = False\<rparr>,
      \<lparr>stmt_pred = [3, 0], stmt_succ = [2, 3], kind = StatementBlock 1 0 0 False False, expired = False\<rparr>,
      \<lparr>stmt_pred = [1], stmt_succ = [], kind = StatementBlock 3 0 0 False False, expired = False\<rparr>,
      \<lparr>stmt_pred = [1], stmt_succ = [1], kind = StatementBlock 2 0 0 False False, expired = False\<rparr>]"

text \<open>The same after the loop (1, 2) has been folded: node 4 is the while node, which has
  taken the place of the head under the entry, node 5 the break node.\<close>

definition heap_entry_while_folded :: heap where
  "heap_entry_while_folded =
     [\<lparr>stmt_pred = [], stmt_succ = [4], kind = StatementBlock 0 0 0 False False, expired = False\<rparr>,
      \<lparr>stmt_pred = [3], stmt_succ = [5, 3], kind = StatementBlock 1 0 0 False False, expired = False\<rparr>,
      \<lparr>stmt_pred = [4], stmt_succ = [], kind = StatementBlock 3 0 0 False False, expired = False\<rparr>,
      \<lparr>stmt_pred = [1], stmt_succ = [1], kind = StatementBlock 2 0 1 False False, expired = False\<rparr>,
      \<lparr>stmt_pred = [0], stmt_succ = [2], kind = StatementWhile (Some 1) (Some 3), expired = False\<rparr>,
      \<lparr>stmt_pred = [1], stmt_succ = [], kind = StatementBreak, expired = False\<rparr>]"

text \<open>The statements of \<open>cfg_two_loops\<close>: nodes 0 to 3 for the blocks 0 to 3, node 4 for
  block 5 and node 5 for block 4.\<close>

definition heap_two_loops :: heap where
  "heap_two_loops =
     [\<lparr>stmt_pred = [], stmt_succ = [1, 3], kind = StatementBlock 0 0 0 False False, expired = False\<rparr>,
      \<lparr>stmt_pred = [2, 0], stmt_succ = [2], kind = StatementBlock 1 0 0 False False, expired = False\<rparr>,
      \<lparr>stmt_pred = [1], stmt_succ = [3, 1], kind = StatementBlock 2 0 0 False False, expired = False\<rparr>,
      \<lparr>stmt_pred = [5, 2, 0], stmt_succ = [4, 5], kind = StatementBlock 3 0 0 False False, expired = False\<rparr>,
      \<lparr>stmt_pred = [3], stmt_succ = [], kind = StatementBlock 5 0 0 False False, expired = False\<rparr>,
      \<lparr>stmt_pred = [3], stmt_succ = [3], kind = StatementBlock 4 0 0 False False, expired = False\<rparr>]"

text \<open>
  The same after the loop (2, 1): node 6 is the while node and node 7 the break node.
  The head, node 2, had no predecessor but the tail and was not the entry, so nothing
  owned the while node when the iteration ended: it has been destroyed, and node 3 is
  left with an expired entry in its \<open>pred\<close> list.
\<close>

definition heap_two_loops_folded :: heap where
  "heap_two_loops_folded =
     [\<lparr>stmt_pred = [], stmt_succ = [1, 3], kind = StatementBlock 0 0 0 False False, expired = False\<rparr>,
      \<lparr>stmt_pred = [2, 0], stmt_succ = [2], kind = StatementBlock 1 0 1 False False, expired = False\<rparr>,
      \<lparr>stmt_pred = [1], stmt_succ = [7, 1], kind = StatementBlock 2 0 0 False False, expired = False\<rparr>,
      \<lparr>stmt_pred = [5, 0, 6], stmt_succ = [4, 5], kind = StatementBlock 3 0 0 False False, expired = False\<rparr>,
      \<lparr>stmt_pred = [3], stmt_succ = [], kind = StatementBlock 5 0 0 False False, expired = False\<rparr>,
      \<lparr>stmt_pred = [3], stmt_succ = [3], kind = StatementBlock 4 0 0 False False, expired = False\<rparr>,
      \<lparr>stmt_pred = [], stmt_succ = [3], kind = StatementWhile (Some 2) (Some 1), expired = True\<rparr>,
      \<lparr>stmt_pred = [2], stmt_succ = [], kind = StatementBreak, expired = False\<rparr>]"
section \<open>Proofs\<close>

subsection \<open>The order on segment references\<close>

lemma segtype_u8_less: "unat (segtype_u8 x) = kind_rank x"
  by (cases x) simp_all

lemma kind_rank_inj: "kind_rank x = kind_rank y \<longleftrightarrow> x = y"
  by (cases x; cases y) simp_all

lemma seg_less_lex_aux:
  "(if kx \<noteq> ky then segtype_u8 kx < segtype_u8 ky else if (i::16 word) \<noteq> j then i < j else (d::32 word) < e)
   \<longleftrightarrow> lex3 (kind_rank kx, unat i, unat d) (kind_rank ky, unat j, unat e)"
  by (auto simp: segtype_u8_less kind_rank_inj word_less_nat_alt word_unat_eq_iff)


lemma seg_less_lex: "seg_less a b \<longleftrightarrow> lex3 (seg_key a) (seg_key b)"
  unfolding seg_less_def seg_key_def by (rule seg_less_lex_aux)

lemma seg_eq_key: "seg_eq a b \<longleftrightarrow> seg_key a = seg_key b"
  by (auto simp: seg_eq_def seg_key_def kind_rank_inj word_unat_eq_iff)

lemma lex3_trans: "lex3 x y \<Longrightarrow> lex3 y z \<Longrightarrow> lex3 x z"
  by (cases x; cases y; cases z) auto

lemma lex3_total: "lex3 x y \<or> x = y \<or> lex3 y x"
  by (cases x; cases y) auto

lemma lex3_irrefl: "\<not> lex3 x x"
  by (cases x) auto

lemma lex3_asym: "lex3 x y \<Longrightarrow> \<not> lex3 y x"
  by (cases x; cases y) auto

text \<open>
  Claim C7. For all segment references \<open>a\<close> and \<open>b\<close>, \<open>a < b\<close> holds exactly when the
  triple (segment kind, segment index, data index) of \<open>a\<close> is lexicographically smaller
  than that of \<open>b\<close>, the kinds ordered Main < Mission < Streamed < ExitNode; \<open>a == b\<close>
  holds exactly when the three components are equal; and \<open><\<close> is a strict total order
  compatible with that equality (irreflexive, transitive, asymmetric, and exactly one of
  \<open>a < b\<close>, \<open>a == b\<close>, \<open>b < a\<close> holds).
\<close>

theorem seg_order:
  "(seg_less a b \<longleftrightarrow> lex3 (seg_key a) (seg_key b))
   \<and> (seg_eq a b \<longleftrightarrow> segtype a = segtype b \<and> segindex a = segindex b \<and> data_index a = data_index b)
   \<and> \<not> seg_less a a
   \<and> (seg_less a b \<and> seg_less b c \<longrightarrow> seg_less a c)
   \<and> (seg_less a b \<or> seg_eq a b \<or> seg_less b a)
   \<and> \<not> (seg_less a b \<and> seg_eq a b)
   \<and> \<not> (seg_less a b \<and> seg_less b a)"
proof -
  have eq: "seg_eq a b \<longleftrightarrow> segtype a = segtype b \<and> segindex a = segindex b \<and> data_index a = data_index b"
    by (auto simp: seg_eq_def)
  have tr: "seg_less a b \<and> seg_less b c \<longrightarrow> seg_less a c"
    using lex3_trans [of "seg_key a" "seg_key b" "seg_key c"] by (simp add: seg_less_lex)
  have tot: "seg_less a b \<or> seg_eq a b \<or> seg_less b a"
    using lex3_total [of "seg_key a" "seg_key b"] by (simp add: seg_less_lex seg_eq_key)
  have ne: "\<not> (seg_less a b \<and> seg_eq a b)"
    using lex3_irrefl [of "seg_key a"] by (auto simp: seg_less_lex seg_eq_key)
  have asym: "\<not> (seg_less a b \<and> seg_less b a)"
    using lex3_asym [of "seg_key a" "seg_key b"] by (auto simp: seg_less_lex)
  show ?thesis
    using eq tr tot ne asym lex3_irrefl by (simp add: seg_less_lex)
qed

theorem seg_order_witness:
  "seg_less seg_a seg_b \<and> seg_less seg_b seg_c \<and> seg_less seg_a seg_c \<and> \<not> seg_less seg_c seg_a
   \<and> \<not> seg_eq seg_a seg_b"
  using seg_order [of seg_a seg_b seg_c] seg_order [of seg_a seg_c seg_a]
  by (simp add: seg_a_def seg_b_def seg_c_def seg_less_def seg_eq_def)

subsection \<open>Immediate strings\<close>

lemma std_find_le: "std_find xs c \<le> length xs"
  by (induction xs) auto

lemma std_find_split:
  "xs = take (std_find xs c) xs @ drop (std_find xs c) xs
   \<and> c \<notin> set (take (std_find xs c) xs)
   \<and> (drop (std_find xs c) xs = [] \<or> hd (drop (std_find xs c) xs) = c)"
  by (induction xs) auto

lemma prefix_before_unique:
  "xs = r @ rest \<Longrightarrow> c \<notin> set r \<Longrightarrow> rest = [] \<or> hd rest = c \<Longrightarrow> r = take (std_find xs c) xs"
proof (induction r arbitrary: xs)
  case Nil
  then show ?case by (cases xs) auto
next
  case (Cons a r)
  then show ?case by (cases xs) auto
qed

lemma std_find_absent: "c \<notin> set xs \<Longrightarrow> std_find xs c = length xs"
  by (induction xs) auto

lemma get_immstr_string_iff:
  "get_immstr_string s = Some r \<longleftrightarrow>
     (\<exists>rest. storage s = r @ rest \<and> NUL \<notin> set r \<and> (rest = [] \<or> hd rest = NUL))"
proof
  assume "get_immstr_string s = Some r"
  then have r: "r = take (std_find (storage s) NUL) (storage s)"
    by (simp add: get_immstr_string_def)
  show "\<exists>rest. storage s = r @ rest \<and> NUL \<notin> set r \<and> (rest = [] \<or> hd rest = NUL)"
    unfolding r using std_find_split [of "storage s" NUL] by blast
next
  assume "\<exists>rest. storage s = r @ rest \<and> NUL \<notin> set r \<and> (rest = [] \<or> hd rest = NUL)"
  then obtain rest where "storage s = r @ rest" "NUL \<notin> set r" "rest = [] \<or> hd rest = NUL"
    by blast
  then have "r = take (std_find (storage s) NUL) (storage s)"
    by (rule prefix_before_unique)
  then show "get_immstr_string s = Some r"
    by (simp add: get_immstr_string_def)
qed

text \<open>
  Claim C10. \<open>get_immstr\<close> returns a string only for a \<open>DecompiledString\<close> argument, and
  then exactly the characters of its storage strictly before the first NUL (the whole
  storage when it holds no NUL); for every other alternative of the variant it returns
  nothing.
\<close>

theorem get_immstr_spec:
  "(get_immstr v = Some r \<longleftrightarrow>
      (\<exists>s rest. v = ArgString s \<and> storage s = r @ rest \<and> NUL \<notin> set r \<and> (rest = [] \<or> hd rest = NUL)))
   \<and> ((\<forall>s. v \<noteq> ArgString s) \<longrightarrow> get_immstr v = None)
   \<and> (v = ArgString s \<and> NUL \<notin> set (storage s) \<longrightarrow> get_immstr v = Some (storage s))"
proof (cases v)
  case (ArgString s')
  then show ?thesis
    using get_immstr_string_iff [of s' r]
    by (auto simp: get_immstr_string_def std_find_absent)
qed simp_all

theorem get_immstr_spec_witness:
  "get_immstr (ArgString \<lparr>storage = ''AB'' @ [NUL] @ ''C''\<rparr>) = Some ''AB''
   \<and> get_immstr (ArgString \<lparr>storage = ''ABC''\<rparr>) = Some ''ABC''
   \<and> get_immstr (ArgInt32 5) = None"
  using get_immstr_spec [of "ArgString \<lparr>storage = ''AB'' @ [NUL] @ ''C''\<rparr>" "''AB''"]
    get_immstr_spec [of "ArgString \<lparr>storage = ''ABC''\<rparr>" "''ABC''" "\<lparr>storage = ''ABC''\<rparr>"]
    get_immstr_spec [of "ArgInt32 5"]
  by (simp add: NUL_def)

subsection \<open>Linking blocks\<close>

lemma bindE_Inr_iff: "bindE m f = Inr y \<longleftrightarrow> (\<exists>x. m = Inr x \<and> f x = Inr y)"
  by (cases m) (simp_all add: bindE_def)

lemma link_blocks_Inr_iff:
  "(\<exists>bl'. link_blocks bl a b = Inr bl') \<longleftrightarrow> a < length (blocks bl) \<and> b < length (blocks bl)"
  by (simp add: link_blocks_def Let_def)

lemma link_blocks_length:
  "link_blocks bl a b = Inr bl' \<Longrightarrow> length (blocks bl') = length (blocks bl)"
  by (auto simp: link_blocks_def Let_def split: if_splits)

lemma link_blocks_succ:
  "link_blocks bl a b = Inr bl' \<Longrightarrow>
   succ (blocks bl' ! c) = (if c = a then succ (blocks bl ! a) @ [b] else succ (blocks bl ! c))"
  by (auto simp: link_blocks_def Let_def nth_list_update split: if_splits)

lemma link_blocks_pred:
  "link_blocks bl a b = Inr bl' \<Longrightarrow>
   pred (blocks bl' ! c) = (if c = b then pred (blocks bl ! b) @ [a] else pred (blocks bl ! c))"
  by (auto simp: link_blocks_def Let_def nth_list_update split: if_splits)

lemma link_blocks_other:
  "link_blocks bl a b = Inr bl' \<Longrightarrow> c \<noteq> a \<Longrightarrow> c \<noteq> b \<Longrightarrow> blocks bl' ! c = blocks bl ! c"
  by (auto simp: link_blocks_def Let_def split: if_splits)

lemma count_list_snoc: "count_list (xs @ [x]) y = count_list xs y + (if x = y then 1 else 0)"
  by (induction xs) auto

lemma link_blocks_symmetric:
  assumes "link_blocks bl a b = Inr bl'" and "edge_symmetric (blocks bl)"
  shows "edge_symmetric (blocks bl')"
  using assms(2) unfolding edge_symmetric_def
  by (auto simp: link_blocks_length [OF assms(1)] link_blocks_succ [OF assms(1)]
      link_blocks_pred [OF assms(1)] count_list_snoc)

lemma link_blocks_seq_symmetric:
  "link_blocks_seq bl ops = Inr bl' \<Longrightarrow> edge_symmetric (blocks bl) \<Longrightarrow> edge_symmetric (blocks bl')"
proof (induction ops arbitrary: bl)
  case Nil
  then show ?case by simp
next
  case (Cons e ops)
  obtain a b where e: "e = (a, b)" by (cases e)
  from Cons.prems(1) obtain bl1 where 1: "link_blocks bl a b = Inr bl1"
    and 2: "link_blocks_seq bl1 ops = Inr bl'"
    by (auto simp: e bindE_Inr_iff)
  show ?case
    using Cons.IH [OF 2] link_blocks_symmetric [OF 1 Cons.prems(2)] by simp
qed

text \<open>
  Claim C5. A single \<open>link_blocks(A, B)\<close> appends exactly one entry to \<open>A.succ\<close> and one
  to \<open>B.pred\<close> and changes no other list of any block; so after any sequence of
  \<open>link_blocks\<close> calls \<open>A\<close> occurs in \<open>B.pred\<close> as often as \<open>B\<close> occurs in \<open>A.succ\<close>.
  The call is defined exactly for two ids inside the block vector.
\<close>

theorem link_blocks_edge_symmetry:
  "(link_blocks bl a b = Inr bl1 \<longrightarrow>
      length (blocks bl1) = length (blocks bl)
      \<and> succ (blocks bl1 ! a) = succ (blocks bl ! a) @ [b]
      \<and> pred (blocks bl1 ! b) = pred (blocks bl ! b) @ [a]
      \<and> (\<forall>c. c \<noteq> a \<longrightarrow> succ (blocks bl1 ! c) = succ (blocks bl ! c))
      \<and> (\<forall>c. c \<noteq> b \<longrightarrow> pred (blocks bl1 ! c) = pred (blocks bl ! c))
      \<and> (\<forall>c. c \<noteq> a \<and> c \<noteq> b \<longrightarrow> blocks bl1 ! c = blocks bl ! c))
   \<and> (edge_symmetric (blocks bl) \<and> link_blocks_seq bl ops = Inr bl2 \<longrightarrow>
        edge_symmetric (blocks bl2))
   \<and> ((\<exists>bl'. link_blocks bl a b = Inr bl') \<longleftrightarrow> a < length (blocks bl) \<and> b < length (blocks bl))"
  using link_blocks_seq_symmetric [of bl ops bl2] link_blocks_Inr_iff [of bl a b]
  by (auto simp: link_blocks_length link_blocks_succ link_blocks_pred link_blocks_other)

theorem link_blocks_edge_symmetry_witness:
  "edge_symmetric (blocks two_blocks)
   \<and> (\<exists>bl2. link_blocks_seq two_blocks [(0, 1), (1, 0), (0, 1), (1, 1)] = Inr bl2
        \<and> edge_symmetric (blocks bl2)
        \<and> succ (blocks bl2 ! 0) = [1, 1] \<and> pred (blocks bl2 ! 1) = [0, 0, 1])"
proof -
  have s: "edge_symmetric (blocks two_blocks)"
    by (simp add: edge_symmetric_def two_blocks_def fresh_block_def All_less_Suc)
  obtain bl2 where r: "link_blocks_seq two_blocks [(0, 1), (1, 0), (0, 1), (1, 1)] = Inr bl2"
    and v: "succ (blocks bl2 ! 0) = [1, 1]" "pred (blocks bl2 ! 1) = [0, 0, 1]"
    by (simp add: two_blocks_def fresh_block_def link_blocks_def bindE_def)
  from link_blocks_edge_symmetry [of two_blocks 0 1 _ "[(0, 1), (1, 0), (0, 1), (1, 1)]" bl2] s r
  have "edge_symmetric (blocks bl2)" by blast
  with s r v show ?thesis by blast
qed

subsection \<open>Linking calls and script spawns\<close>

lemma apply_link_length:
  "apply_link bl e = Inr bl' \<Longrightarrow> length (proc_entries bl') = length (proc_entries bl)"
  by (cases e) (auto simp: link_call_def link_script_spawn_def Let_def split: if_splits)

lemma apply_link_calls_into:
  "apply_link bl e = Inr bl' \<Longrightarrow>
   calls_into (proc_entries bl' ! p) = calls_into (proc_entries bl ! p) @
     (case e of LinkCall f p' q \<Rightarrow> if p' = p then [\<lparr>xref_block_id = f, xref_proc_id = q\<rparr>] else []
              | LinkScriptSpawn f p' q \<Rightarrow> [])"
  by (cases e) (auto simp: link_call_def link_script_spawn_def Let_def nth_list_update split: if_splits)

lemma apply_link_called_from:
  "apply_link bl e = Inr bl' \<Longrightarrow>
   called_from (proc_entries bl' ! q) = called_from (proc_entries bl ! q) @
     (case e of LinkCall f p q' \<Rightarrow> if q' = q then [\<lparr>xref_block_id = f, xref_proc_id = p\<rparr>] else []
              | LinkScriptSpawn f p q' \<Rightarrow> [])"
  by (cases e) (auto simp: link_call_def link_script_spawn_def Let_def nth_list_update split: if_splits)

lemma apply_link_spawns_script:
  "apply_link bl e = Inr bl' \<Longrightarrow>
   spawns_script (proc_entries bl' ! p) = spawns_script (proc_entries bl ! p) @
     (case e of LinkScriptSpawn f p' q \<Rightarrow> if p' = p then [\<lparr>xref_block_id = f, xref_proc_id = q\<rparr>] else []
              | LinkCall f p' q \<Rightarrow> [])"
  by (cases e) (auto simp: link_call_def link_script_spawn_def Let_def nth_list_update split: if_splits)

lemma apply_link_spawned_from:
  "apply_link bl e = Inr bl' \<Longrightarrow>
   spawned_from (proc_entries bl' ! q) = spawned_from (proc_entries bl ! q) @
     (case e of LinkScriptSpawn f p q' \<Rightarrow> if q' = q then [\<lparr>xref_block_id = f, xref_proc_id = p\<rparr>] else []
              | LinkCall f p q' \<Rightarrow> [])"
  by (cases e) (auto simp: link_call_def link_script_spawn_def Let_def nth_list_update split: if_splits)

text \<open>Membership in the four lists after a run, in terms of what was there before and
  the operations run.\<close>

lemma apply_links_members:
  "apply_links bl ops = Inr bl' \<Longrightarrow>
   length (proc_entries bl') = length (proc_entries bl)
   \<and> (\<lparr>xref_block_id = f, xref_proc_id = q\<rparr> \<in> set (calls_into (proc_entries bl' ! p)) \<longleftrightarrow>
        \<lparr>xref_block_id = f, xref_proc_id = q\<rparr> \<in> set (calls_into (proc_entries bl ! p))
        \<or> LinkCall f p q \<in> set ops)
   \<and> (\<lparr>xref_block_id = f, xref_proc_id = p\<rparr> \<in> set (called_from (proc_entries bl' ! q)) \<longleftrightarrow>
        \<lparr>xref_block_id = f, xref_proc_id = p\<rparr> \<in> set (called_from (proc_entries bl ! q))
        \<or> LinkCall f p q \<in> set ops)
   \<and> (\<lparr>xref_block_id = f, xref_proc_id = q\<rparr> \<in> set (spawns_script (proc_entries bl' ! p)) \<longleftrightarrow>
        \<lparr>xref_block_id = f, xref_proc_id = q\<rparr> \<in> set (spawns_script (proc_entries bl ! p))
        \<or> LinkScriptSpawn f p q \<in> set ops)
   \<and> (\<lparr>xref_block_id = f, xref_proc_id = p\<rparr> \<in> set (spawned_from (proc_entries bl' ! q)) \<longleftrightarrow>
        \<lparr>xref_block_id = f, xref_proc_id = p\<rparr> \<in> set (spawned_from (proc_entries bl ! q))
        \<or> LinkScriptSpawn f p q \<in> set ops)"
proof (induction ops arbitrary: bl)
  case Nil
  then show ?case by simp
next
  case (Cons e ops)
  from Cons.prems obtain bl1 where 1: "apply_link bl e = Inr bl1"
    and 2: "apply_links bl1 ops = Inr bl'"
    by (auto simp: bindE_Inr_iff)
  show ?case
    using Cons.IH [OF 2]
    by (cases e)
      (auto simp: apply_link_length [OF 1] apply_link_calls_into [OF 1] apply_link_called_from [OF 1]
        apply_link_spawns_script [OF 1] apply_link_spawned_from [OF 1])
qed

lemma no_xrefs_nth:
  "no_xrefs bl \<Longrightarrow> p < length (proc_entries bl) \<Longrightarrow>
   calls_into (proc_entries bl ! p) = [] \<and> called_from (proc_entries bl ! p) = []
   \<and> spawns_script (proc_entries bl ! p) = [] \<and> spawned_from (proc_entries bl ! p) = []"
  by (simp add: no_xrefs_def list_all_length)

text \<open>
  Claim C6. After any sequence of \<open>link_call\<close> and \<open>link_script_spawn\<close> operations on
  freshly discovered procedures, \<open>{F,Q}\<close> is in \<open>P.calls_into\<close> exactly when \<open>{F,P}\<close> is in
  \<open>Q.called_from\<close>, and \<open>{F,Q}\<close> is in \<open>P.spawns_script\<close> exactly when \<open>{F,P}\<close> is in
  \<open>Q.spawned_from\<close>; the call lists hold exactly the edges made by \<open>link_call\<close> and the
  spawn lists exactly those made by \<open>link_script_spawn\<close>, so neither kind of edge shows
  up in the other's lists.
\<close>

theorem call_spawn_symmetry:
  assumes "no_xrefs bl" and "apply_links bl ops = Inr bl'"
    and "p < length (proc_entries bl)" and "q < length (proc_entries bl)"
  shows "(\<lparr>xref_block_id = f, xref_proc_id = q\<rparr> \<in> set (calls_into (proc_entries bl' ! p)) \<longleftrightarrow>
          \<lparr>xref_block_id = f, xref_proc_id = p\<rparr> \<in> set (called_from (proc_entries bl' ! q)))
       \<and> (\<lparr>xref_block_id = f, xref_proc_id = q\<rparr> \<in> set (spawns_script (proc_entries bl' ! p)) \<longleftrightarrow>
          \<lparr>xref_block_id = f, xref_proc_id = p\<rparr> \<in> set (spawned_from (proc_entries bl' ! q)))
       \<and> (\<lparr>xref_block_id = f, xref_proc_id = q\<rparr> \<in> set (calls_into (proc_entries bl' ! p)) \<longleftrightarrow>
          LinkCall f p q \<in> set ops)
       \<and> (\<lparr>xref_block_id = f, xref_proc_id = q\<rparr> \<in> set (spawns_script (proc_entries bl' ! p)) \<longleftrightarrow>
          LinkScriptSpawn f p q \<in> set ops)"
  using apply_links_members [OF assms(2), of f q p] no_xrefs_nth [OF assms(1,3)]
    no_xrefs_nth [OF assms(1,4)]
  by simp

theorem call_spawn_symmetry_witness:
  "no_xrefs two_procs
   \<and> (\<exists>bl'. apply_links two_procs [LinkCall 5 0 1, LinkScriptSpawn 6 1 0] = Inr bl'
        \<and> \<lparr>xref_block_id = 5, xref_proc_id = 1\<rparr> \<in> set (calls_into (proc_entries bl' ! 0))
        \<and> \<lparr>xref_block_id = 5, xref_proc_id = 0\<rparr> \<in> set (called_from (proc_entries bl' ! 1))
        \<and> \<lparr>xref_block_id = 5, xref_proc_id = 1\<rparr> \<notin> set (spawns_script (proc_entries bl' ! 0))
        \<and> \<lparr>xref_block_id = 5, xref_proc_id = 0\<rparr> \<notin> set (spawned_from (proc_entries bl' ! 1)))"
proof -
  have n: "no_xrefs two_procs"
    by (simp add: no_xrefs_def two_procs_def fresh_proc_def)
  obtain bl' where r: "apply_links two_procs [LinkCall 5 0 1, LinkScriptSpawn 6 1 0] = Inr bl'"
    by (simp add: two_procs_def fresh_proc_def link_call_def link_script_spawn_def bindE_def)
  have l: "(0::nat) < length (proc_entries two_procs)" "(1::nat) < length (proc_entries two_procs)"
    by (simp_all add: two_procs_def)
  from call_spawn_symmetry [OF n r l(1) l(2), of 5] r
  show ?thesis using n by auto
qed

subsection \<open>Depth-first traversals\<close>

lemma log_step_refl: "log_step U U log log True"
  by (simp add: log_step_def stop_is_last_def)

lemma stop_is_last_append:
  "list_all snd xs \<Longrightarrow> stop_is_last ys \<Longrightarrow> stop_is_last (xs @ ys)"
  by (cases ys rule: rev_cases) (simp_all add: stop_is_last_def butlast_append list_all_iff, auto dest: in_set_butlastD)

lemma log_step_trans:
  assumes "log_step U U1 log log1 True" and "log_step U1 U2 log1 log2 c"
  shows "log_step U U2 log log2 c"
proof -
  from assms(1) obtain n1 where 1: "log1 = log @ n1" "distinct (map fst n1)" "fst ` set n1 \<subseteq> U"
    "U1 = U - fst ` set n1" "list_all snd n1"
    by (auto simp: log_step_def)
  from assms(2) obtain n2 where 2: "log2 = log1 @ n2" "distinct (map fst n2)" "fst ` set n2 \<subseteq> U1"
    "U2 = U1 - fst ` set n2" "stop_is_last n2" "c \<longleftrightarrow> list_all snd n2"
    by (auto simp: log_step_def)
  have "log2 = log @ (n1 @ n2)" using 1 2 by simp
  moreover have "distinct (map fst (n1 @ n2))" using 1 2 by auto
  moreover have "fst ` set (n1 @ n2) \<subseteq> U" using 1 2 by auto
  moreover have "U2 = U - fst ` set (n1 @ n2)" using 1 2 by auto
  moreover have "stop_is_last (n1 @ n2)" using 1 2 by (simp add: stop_is_last_append)
  moreover have "c \<longleftrightarrow> list_all snd (n1 @ n2)" using 1 2 by simp
  ultimately show ?thesis unfolding log_step_def by blast
qed

lemma log_step_stop: "n \<in> U \<Longrightarrow> log_step U (U - {n}) log (log @ [(n, False)]) False"
  unfolding log_step_def by (rule exI [of _ "[(n, False)]"]) (simp add: stop_is_last_def)

lemma log_step_visit:
  assumes "n \<in> U" and "log_step (U - {n}) U' (log @ [(n, True)]) log' c"
  shows "log_step U U' log log' c"
proof -
  have "log_step U (U - {n}) log (log @ [(n, True)]) True"
    unfolding log_step_def using assms(1)
    by (intro exI [of _ "[(n, True)]"]) (simp add: stop_is_last_def)
  then show ?thesis using assms(2) by (rule log_step_trans)
qed

lemma log_step_from_empty:
  "log_step U U' [] log c \<Longrightarrow> distinct (map fst log) \<and> stop_is_last log \<and> fst ` set log \<subseteq> U"
  by (auto simp: log_step_def)

lemma unvisited_mark:
  "n < length v \<Longrightarrow> unvisited (v[n := True]) = unvisited v - {n}"
  by (auto simp: unvisited_def nth_list_update)

lemma finite_unvisited: "finite (unvisited v)"
  by (simp add: unvisited_def)

lemma unvisited_replicate: "unvisited (replicate n False) = {..<n}"
  by (auto simp: unvisited_def)

lemma card_unvisited_mark:
  "n < length v \<Longrightarrow> \<not> v ! n \<Longrightarrow> card (unvisited v) \<le> Suc k \<Longrightarrow> card (unvisited (v[n := True])) \<le> k"
proof -
  assume a: "n < length v" "\<not> v ! n" "card (unvisited v) \<le> Suc k"
  then have "n \<in> unvisited v" by (simp add: unvisited_def)
  then have "card (unvisited v - {n}) = card (unvisited v) - 1"
    by (simp add: finite_unvisited)
  with a show ?thesis by (simp add: unvisited_mark)
qed

lemma cfg_closedD:
  "cfg_closed bl forward \<Longrightarrow> b < length (blocks bl) \<Longrightarrow>
   x \<in> set (if forward then succ (blocks bl ! b) else pred (blocks bl ! b)) \<Longrightarrow> x < length (blocks bl)"
  by (auto simp: cfg_closed_def list_all_length in_set_conv_nth split: if_splits)

text \<open>Blocks: the loop and the recursive function return when the fuel is at least the
  number of unvisited blocks.\<close>

lemma depth_first_loop_returns:
  assumes rec: "\<And>v s n. length v = N \<Longrightarrow> n < N \<Longrightarrow> \<not> v ! n \<Longrightarrow> card (unvisited v) \<le> k \<Longrightarrow>
    \<exists>c v' s'. rec v s n = Inr (c, v', s') \<and> length v' = N \<and> unvisited v' \<subseteq> unvisited v"
  shows "length v = N \<Longrightarrow> card (unvisited v) \<le> k \<Longrightarrow> \<forall>x \<in> set xs. x < N \<Longrightarrow>
    \<exists>c v' s'. depth_first_loop rec v s xs = Inr (c, v', s') \<and> length v' = N
      \<and> unvisited v' \<subseteq> unvisited v"
proof (induction xs arbitrary: v s)
  case Nil
  then show ?case by auto
next
  case (Cons x xs)
  show ?case
  proof (cases "v ! x")
    case True
    then show ?thesis using Cons by simp
  next
    case False
    from Cons.prems have x: "x < N" by simp
    from rec [OF Cons.prems(1) x False Cons.prems(2), of s]
    obtain c v1 s1 where r: "rec v s x = Inr (c, v1, s1)" "length v1 = N" "unvisited v1 \<subseteq> unvisited v"
      by blast
    have "card (unvisited v1) \<le> k"
      using r(3) Cons.prems(2) card_mono [OF finite_unvisited r(3)] by simp
    from Cons.IH [OF r(2) this, of s1] Cons.prems(3)
    obtain c' v' s' where l: "depth_first_loop rec v1 s1 xs = Inr (c', v', s')" "length v' = N"
      "unvisited v' \<subseteq> unvisited v1"
      by auto
    show ?thesis
      using False x Cons.prems(1) r l by (cases c) auto
  qed
qed

lemma depth_first_internal_returns:
  assumes closed: "cfg_closed bl forward"
  shows "length v = length (blocks bl) \<Longrightarrow> n < length v \<Longrightarrow> \<not> v ! n \<Longrightarrow> card (unvisited v) \<le> k \<Longrightarrow>
    \<exists>c v' s'. depth_first_internal k bl forward vis v s n = Inr (c, v', s')
      \<and> length v' = length (blocks bl) \<and> unvisited v' \<subseteq> unvisited v"
proof (induction k arbitrary: v s n)
  case 0
  then have "n \<in> unvisited v" by (simp add: unvisited_def)
  with 0 show ?case using finite_unvisited [of v] by auto
next
  case (Suc k)
  obtain c s1 where vis: "vis s n = (c, s1)" by (cases "vis s n")
  let ?v1 = "v[n := True]"
  have sub: "unvisited ?v1 \<subseteq> unvisited v"
    using Suc.prems(2) by (simp add: unvisited_mark)
  show ?case
  proof (cases c)
    case False
    then show ?thesis using Suc.prems vis sub by auto
  next
    case True
    have len: "length ?v1 = length (blocks bl)" using Suc.prems(1) by simp
    have card: "card (unvisited ?v1) \<le> k"
      using Suc.prems by (intro card_unvisited_mark)
    have nb: "\<forall>x \<in> set (if forward then succ (blocks bl ! n) else pred (blocks bl ! n)).
      x < length (blocks bl)"
      using cfg_closedD [OF closed] Suc.prems(1,2) by auto
    have rec: "\<exists>c v' s'. depth_first_internal k bl forward vis v s n = Inr (c, v', s')
        \<and> length v' = length (blocks bl) \<and> unvisited v' \<subseteq> unvisited v"
      if "length v = length (blocks bl)" "n < length (blocks bl)" "\<not> v ! n" "card (unvisited v) \<le> k"
      for v s n
      using that by (intro Suc.IH) simp_all
    from depth_first_loop_returns [where rec = "depth_first_internal k bl forward vis"
        and N = "length (blocks bl)" and k = k, OF rec len card nb, of s1]
    obtain c' v' s' where l: "depth_first_loop (depth_first_internal k bl forward vis) ?v1 s1
        (if forward then succ (blocks bl ! n) else pred (blocks bl ! n)) = Inr (c', v', s')"
      "length v' = length (blocks bl)" "unvisited v' \<subseteq> unvisited ?v1"
      by blast
    show ?thesis
      using True Suc.prems vis l sub by auto
  qed
qed

text \<open>Blocks: what the traversal does to the log of a recording visitor.\<close>

lemma depth_first_loop_log:
  assumes rec: "\<And>v s l n c v' s' l'. n < length v \<Longrightarrow> \<not> v ! n \<Longrightarrow>
      rec v (s, l) n = Inr (c, v', (s', l')) \<Longrightarrow>
      length v' = length v \<and> log_step (unvisited v) (unvisited v') l l' c"
  shows "depth_first_loop rec v (s, l) xs = Inr (c, v', (s', l')) \<Longrightarrow>
    length v' = length v \<and> log_step (unvisited v) (unvisited v') l l' c"
proof (induction xs arbitrary: v s l)
  case Nil
  then show ?case by (simp add: log_step_refl)
next
  case (Cons x xs)
  show ?case
  proof (cases "x < length v \<and> \<not> v ! x")
    case False
    then show ?thesis using Cons by (auto split: if_splits)
  next
    case True
    with Cons.prems obtain c1 v1 s1 l1 where r: "rec v (s, l) x = Inr (c1, v1, (s1, l1))"
      by (auto split: sum.splits)
    from rec [OF _ _ r] True
    have 1: "length v1 = length v" "log_step (unvisited v) (unvisited v1) l l1 c1" by auto
    show ?thesis
    proof (cases c1)
      case False
      then show ?thesis using Cons.prems True r 1 by simp
    next
      case c1: True
      then have "depth_first_loop rec v1 (s1, l1) xs = Inr (c, v', (s', l'))"
        using Cons.prems True r by simp
      from Cons.IH [OF this] 1 c1 show ?thesis
        by (auto intro: log_step_trans)
    qed
  qed
qed

lemma depth_first_internal_log:
  "depth_first_internal k bl forward (record_calls vis) v (s, l) n = Inr (c, v', (s', l')) \<Longrightarrow>
   length v' = length v \<and> log_step (unvisited v) (unvisited v') l l' c"
proof (induction k arbitrary: v s l n c v' s' l')
  case 0
  then show ?case by simp
next
  case (Suc k)
  from Suc.prems have n: "n < length v" "\<not> v ! n"
    by (auto split: if_splits)
  then have nU: "n \<in> unvisited v" by (simp add: unvisited_def)
  obtain c1 s1 where vis: "vis s n = (c1, s1)" by (cases "vis s n")
  then have rc: "record_calls vis (s, l) n = (c1, (s1, l @ [(n, c1)]))"
    by (simp add: record_calls_def)
  show ?case
  proof (cases c1)
    case False
    with Suc.prems n rc have "c = False" "v' = v[n := True]" "l' = l @ [(n, False)]"
      by auto
    then show ?thesis using n nU by (simp add: unvisited_mark log_step_stop)
  next
    case True
    with Suc.prems n rc
    have "depth_first_loop (depth_first_internal k bl forward (record_calls vis)) (v[n := True])
        (s1, l @ [(n, True)])
        (if forward then succ (blocks bl ! n) else pred (blocks bl ! n)) = Inr (c, v', (s', l'))"
      by (auto split: if_splits)
    from depth_first_loop_log [where rec = "depth_first_internal k bl forward (record_calls vis)", OF _ this]
      Suc.IH
    have "length v' = length (v[n := True])"
      "log_step (unvisited (v[n := True])) (unvisited v') (l @ [(n, True)]) l' c"
      by blast+
    then show ?thesis using n nU by (auto simp: unvisited_mark intro: log_step_visit)
  qed
qed

lemma depth_first_log:
  "depth_first bl start forward (record_calls vis) (s, []) = Inr (s', log) \<Longrightarrow>
   distinct (map fst log) \<and> stop_is_last log \<and> fst ` set log \<subseteq> {..<length (blocks bl)}"
proof -
  assume "depth_first bl start forward (record_calls vis) (s, []) = Inr (s', log)"
  then obtain c v' where "depth_first_internal (Suc (length (blocks bl))) bl forward (record_calls vis)
      (replicate (length (blocks bl)) False) (s, []) start = Inr (c, v', (s', log))"
    by (auto simp: depth_first_def bindE_def Let_def simp del: depth_first_internal.simps
        split: sum.splits)
  from depth_first_internal_log [OF this]
  show ?thesis using log_step_from_empty by (fastforce simp: unvisited_replicate)
qed

lemma depth_first_returns:
  assumes "cfg_closed bl forward" and "start < length (blocks bl)"
  shows "\<exists>s'. depth_first bl start forward vis s = Inr s'"
proof -
  have "card (unvisited (replicate (length (blocks bl)) False)) \<le> Suc (length (blocks bl))"
    by (simp add: unvisited_replicate)
  from depth_first_internal_returns [OF assms(1) _ _ _ this, of start vis s] assms(2)
  show ?thesis
    by (auto simp: depth_first_def bindE_def Let_def simp del: depth_first_internal.simps)
qed

lemma xref_closedD:
  "xref_closed tag bl forward \<Longrightarrow> p < length (proc_entries bl) \<Longrightarrow>
   x \<in> set (iter_vec tag forward (proc_entries bl ! p)) \<Longrightarrow>
   xref_proc_id x < length (proc_entries bl)"
  by (auto simp: xref_closed_def list_all_length in_set_conv_nth)

text \<open>Call and spawn graph: the same two steps as for blocks.\<close>

lemma depth_first_proc_loop_returns:
  assumes rec: "\<And>v s n. length v = N \<Longrightarrow> n < N \<Longrightarrow> \<not> v ! n \<Longrightarrow> card (unvisited v) \<le> k \<Longrightarrow>
    \<exists>c v' s'. rec v s n = Inr (c, v', s') \<and> length v' = N \<and> unvisited v' \<subseteq> unvisited v"
  shows "length v = N \<Longrightarrow> card (unvisited v) \<le> k \<Longrightarrow> \<forall>x \<in> set xs. xref_proc_id x < N \<Longrightarrow>
    \<exists>c v' s'. depth_first_proc_loop rec v s xs = Inr (c, v', s') \<and> length v' = N
      \<and> unvisited v' \<subseteq> unvisited v"
proof (induction xs arbitrary: v s)
  case Nil
  then show ?case by auto
next
  case (Cons x xs)
  show ?case
  proof (cases "v ! xref_proc_id x")
    case True
    then show ?thesis using Cons by simp
  next
    case False
    from Cons.prems have x: "xref_proc_id x < N" by simp
    from rec [OF Cons.prems(1) x False Cons.prems(2), of s]
    obtain c v1 s1 where r: "rec v s (xref_proc_id x) = Inr (c, v1, s1)" "length v1 = N" "unvisited v1 \<subseteq> unvisited v"
      by blast
    have "card (unvisited v1) \<le> k"
      using r(3) Cons.prems(2) card_mono [OF finite_unvisited r(3)] by simp
    from Cons.IH [OF r(2) this, of s1] Cons.prems(3)
    obtain c' v' s' where l: "depth_first_proc_loop rec v1 s1 xs = Inr (c', v', s')" "length v' = N"
      "unvisited v' \<subseteq> unvisited v1"
      by auto
    show ?thesis
      using False x Cons.prems(1) r l by (cases c) auto
  qed
qed

lemma depth_first_internal_proc_returns:
  assumes closed: "xref_closed tag bl forward"
  shows "length v = length (proc_entries bl) \<Longrightarrow> n < length v \<Longrightarrow> \<not> v ! n \<Longrightarrow> card (unvisited v) \<le> k \<Longrightarrow>
    \<exists>c v' s'. depth_first_internal_proc k tag bl forward vis v s n = Inr (c, v', s')
      \<and> length v' = length (proc_entries bl) \<and> unvisited v' \<subseteq> unvisited v"
proof (induction k arbitrary: v s n)
  case 0
  then have "n \<in> unvisited v" by (simp add: unvisited_def)
  with 0 show ?case using finite_unvisited [of v] by auto
next
  case (Suc k)
  obtain c s1 where vis: "vis s n = (c, s1)" by (cases "vis s n")
  let ?v1 = "v[n := True]"
  have sub: "unvisited ?v1 \<subseteq> unvisited v"
    using Suc.prems(2) by (simp add: unvisited_mark)
  show ?case
  proof (cases c)
    case False
    then show ?thesis using Suc.prems vis sub by auto
  next
    case True
    have len: "length ?v1 = length (proc_entries bl)" using Suc.prems(1) by simp
    have card: "card (unvisited ?v1) \<le> k"
      using Suc.prems by (intro card_unvisited_mark)
    have nb: "\<forall>x \<in> set (iter_vec tag forward (proc_entries bl ! n)).
      xref_proc_id x < length (proc_entries bl)"
      using xref_closedD [OF closed] Suc.prems(1,2) by auto
    have rec: "\<exists>c v' s'. depth_first_internal_proc k tag bl forward vis v s n = Inr (c, v', s')
        \<and> length v' = length (proc_entries bl) \<and> unvisited v' \<subseteq> unvisited v"
      if "length v = length (proc_entries bl)" "n < length (proc_entries bl)" "\<not> v ! n" "card (unvisited v) \<le> k"
      for v s n
      using that by (intro Suc.IH) simp_all
    from depth_first_proc_loop_returns [where rec = "depth_first_internal_proc k tag bl forward vis"
        and N = "length (proc_entries bl)" and k = k, OF rec len card nb, of s1]
    obtain c' v' s' where l: "depth_first_proc_loop (depth_first_internal_proc k tag bl forward vis) ?v1 s1
        (iter_vec tag forward (proc_entries bl ! n)) = Inr (c', v', s')"
      "length v' = length (proc_entries bl)" "unvisited v' \<subseteq> unvisited ?v1"
      by blast
    show ?thesis
      using True Suc.prems vis l sub by auto
  qed
qed

text \<open>Call and spawn graph: the log of a recording visitor.\<close>

lemma depth_first_proc_loop_log:
  assumes rec: "\<And>v s l n c v' s' l'. n < length v \<Longrightarrow> \<not> v ! n \<Longrightarrow>
      rec v (s, l) n = Inr (c, v', (s', l')) \<Longrightarrow>
      length v' = length v \<and> log_step (unvisited v) (unvisited v') l l' c"
  shows "depth_first_proc_loop rec v (s, l) xs = Inr (c, v', (s', l')) \<Longrightarrow>
    length v' = length v \<and> log_step (unvisited v) (unvisited v') l l' c"
proof (induction xs arbitrary: v s l)
  case Nil
  then show ?case by (simp add: log_step_refl)
next
  case (Cons x xs)
  show ?case
  proof (cases "xref_proc_id x < length v \<and> \<not> v ! xref_proc_id x")
    case False
    then show ?thesis using Cons by (auto split: if_splits)
  next
    case True
    with Cons.prems obtain c1 v1 s1 l1 where r: "rec v (s, l) (xref_proc_id x) = Inr (c1, v1, (s1, l1))"
      by (auto split: sum.splits)
    from rec [OF _ _ r] True
    have 1: "length v1 = length v" "log_step (unvisited v) (unvisited v1) l l1 c1" by auto
    show ?thesis
    proof (cases c1)
      case False
      then show ?thesis using Cons.prems True r 1 by simp
    next
      case c1: True
      then have "depth_first_proc_loop rec v1 (s1, l1) xs = Inr (c, v', (s', l'))"
        using Cons.prems True r by simp
      from Cons.IH [OF this] 1 c1 show ?thesis
        by (auto intro: log_step_trans)
    qed
  qed
qed

lemma depth_first_internal_proc_log:
  "depth_first_internal_proc k tag bl forward (record_calls vis) v (s, l) n = Inr (c, v', (s', l')) \<Longrightarrow>
   length v' = length v \<and> log_step (unvisited v) (unvisited v') l l' c"
proof (induction k arbitrary: v s l n c v' s' l')
  case 0
  then show ?case by simp
next
  case (Suc k)
  from Suc.prems have n: "n < length v" "\<not> v ! n" "n < length (proc_entries bl)"
    by (auto split: if_splits)
  then have nU: "n \<in> unvisited v" by (simp add: unvisited_def)
  obtain c1 s1 where vis: "vis s n = (c1, s1)" by (cases "vis s n")
  then have rc: "record_calls vis (s, l) n = (c1, (s1, l @ [(n, c1)]))"
    by (simp add: record_calls_def)
  show ?case
  proof (cases c1)
    case False
    with Suc.prems n rc have "c = False" "v' = v[n := True]" "l' = l @ [(n, False)]"
      by auto
    then show ?thesis using n nU by (simp add: unvisited_mark log_step_stop)
  next
    case True
    with Suc.prems n rc
    have "depth_first_proc_loop (depth_first_internal_proc k tag bl forward (record_calls vis)) (v[n := True])
        (s1, l @ [(n, True)])
        (iter_vec tag forward (proc_entries bl ! n)) = Inr (c, v', (s', l'))"
      by (auto split: if_splits)
    from depth_first_proc_loop_log [where rec = "depth_first_internal_proc k tag bl forward (record_calls vis)", OF _ this]
      Suc.IH
    have "length v' = length (v[n := True])"
      "log_step (unvisited (v[n := True])) (unvisited v') (l @ [(n, True)]) l' c"
      by blast+
    then show ?thesis using n nU by (auto simp: unvisited_mark intro: log_step_visit)
  qed
qed

lemma depth_first_proc_log:
  "depth_first_proc tag bl start forward (record_calls vis) (s, []) = Inr (s', log) \<Longrightarrow>
   distinct (map fst log) \<and> stop_is_last log \<and> fst ` set log \<subseteq> {..<length (proc_entries bl)}"
proof -
  assume "depth_first_proc tag bl start forward (record_calls vis) (s, []) = Inr (s', log)"
  then obtain c v' where "depth_first_internal_proc (Suc (length (proc_entries bl))) tag bl forward (record_calls vis)
      (replicate (length (proc_entries bl)) False) (s, []) start = Inr (c, v', (s', log))"
    by (auto simp: depth_first_proc_def bindE_def Let_def simp del: depth_first_internal_proc.simps
        split: sum.splits)
  from depth_first_internal_proc_log [OF this]
  show ?thesis using log_step_from_empty by (fastforce simp: unvisited_replicate)
qed

lemma depth_first_proc_returns:
  assumes "xref_closed tag bl forward" and "start < length (proc_entries bl)"
  shows "\<exists>s'. depth_first_proc tag bl start forward vis s = Inr s'"
proof -
  have "card (unvisited (replicate (length (proc_entries bl)) False)) \<le> Suc (length (proc_entries bl))"
    by (simp add: unvisited_replicate)
  from depth_first_internal_proc_returns [OF assms(1) _ _ _ this, of start vis s] assms(2)
  show ?thesis
    by (auto simp: depth_first_proc_def bindE_def Let_def simp del: depth_first_internal_proc.simps)
qed

lemma unvisited_nodes_mark:
  "unvisited_nodes h (v(n := True)) = unvisited_nodes h v - {n}"
  by (auto simp: unvisited_nodes_def)

lemma finite_unvisited_nodes: "finite (unvisited_nodes h v)"
  by (simp add: unvisited_nodes_def)

lemma unvisited_nodes_init: "unvisited_nodes h (\<lambda>node. False) = {..<length h}"
  by (auto simp: unvisited_nodes_def)

lemma card_unvisited_nodes_mark:
  assumes "n < length h" and "\<not> v n" and "card (unvisited_nodes h v) \<le> Suc k"
  shows "card (unvisited_nodes h (v(n := True))) \<le> k"
proof -
  from assms have "n \<in> unvisited_nodes h v" by (simp add: unvisited_nodes_def)
  then have "card (unvisited_nodes h v - {n}) = card (unvisited_nodes h v) - 1"
    by (simp add: finite_unvisited_nodes)
  with assms show ?thesis by (simp add: unvisited_nodes_mark)
qed

lemma heap_closedD:
  "heap_closed h \<Longrightarrow> n < length h \<Longrightarrow> x \<in> set (stmt_succ (h ! n)) \<Longrightarrow> x < length h"
  by (auto simp: heap_closed_def list_all_length in_set_conv_nth)

text \<open>Statements: the forward traversal returns on a closed heap.\<close>

lemma depth_first_stmt_loop_returns:
  assumes rec: "\<And>v s n. n < length h \<Longrightarrow> \<not> v n \<Longrightarrow> card (unvisited_nodes h v) \<le> k \<Longrightarrow>
    \<exists>c v' s'. rec v s n = Inr (c, v', s') \<and> unvisited_nodes h v' \<subseteq> unvisited_nodes h v"
  shows "card (unvisited_nodes h v) \<le> k \<Longrightarrow> \<forall>x \<in> set xs. x < length h \<Longrightarrow>
    \<exists>c v' s'. depth_first_stmt_loop rec v s xs = Inr (c, v', s')
      \<and> unvisited_nodes h v' \<subseteq> unvisited_nodes h v"
proof (induction xs arbitrary: v s)
  case Nil
  then show ?case by auto
next
  case (Cons x xs)
  show ?case
  proof (cases "v x")
    case True
    then show ?thesis using Cons by simp
  next
    case False
    from Cons.prems have x: "x < length h" by simp
    from rec [OF x False Cons.prems(1), of s]
    obtain c v1 s1 where r: "rec v s x = Inr (c, v1, s1)"
      "unvisited_nodes h v1 \<subseteq> unvisited_nodes h v"
      by blast
    have "card (unvisited_nodes h v1) \<le> k"
      using Cons.prems(1) card_mono [OF finite_unvisited_nodes r(2)] by simp
    from Cons.IH [OF this, of s1] Cons.prems(2)
    obtain c' v' s' where l: "depth_first_stmt_loop rec v1 s1 xs = Inr (c', v', s')"
      "unvisited_nodes h v' \<subseteq> unvisited_nodes h v1"
      by auto
    show ?thesis
      using False r l by (cases c) auto
  qed
qed

lemma depth_first_internal_stmt_returns:
  assumes closed: "heap_closed h"
  shows "n < length h \<Longrightarrow> \<not> v n \<Longrightarrow> card (unvisited_nodes h v) \<le> k \<Longrightarrow>
    \<exists>c v' s'. depth_first_internal_stmt k h True vis v s n = Inr (c, v', s')
      \<and> unvisited_nodes h v' \<subseteq> unvisited_nodes h v"
proof (induction k arbitrary: v s n)
  case 0
  then have "n \<in> unvisited_nodes h v" by (simp add: unvisited_nodes_def)
  with 0 show ?case using finite_unvisited_nodes [of h v] by auto
next
  case (Suc k)
  obtain c s1 where vis: "vis s n = (c, s1)" by (cases "vis s n")
  let ?v1 = "v(n := True)"
  have sub: "unvisited_nodes h ?v1 \<subseteq> unvisited_nodes h v"
    by (simp add: unvisited_nodes_mark)
  show ?case
  proof (cases c)
    case False
    then show ?thesis using Suc.prems vis sub by auto
  next
    case True
    have card: "card (unvisited_nodes h ?v1) \<le> k"
      using Suc.prems by (intro card_unvisited_nodes_mark)
    have nb: "\<forall>x \<in> set (stmt_succ (h ! n)). x < length h"
      using heap_closedD [OF closed Suc.prems(1)] by auto
    have rec: "\<exists>c v' s'. depth_first_internal_stmt k h True vis v s n = Inr (c, v', s')
        \<and> unvisited_nodes h v' \<subseteq> unvisited_nodes h v"
      if "n < length h" "\<not> v n" "card (unvisited_nodes h v) \<le> k" for v s n
      using that by (intro Suc.IH) simp_all
    from depth_first_stmt_loop_returns [where rec = "depth_first_internal_stmt k h True vis"
        and h = h and k = k, OF rec card nb, of s1]
    obtain c' v' s' where l: "depth_first_stmt_loop (depth_first_internal_stmt k h True vis) ?v1 s1
        (stmt_succ (h ! n)) = Inr (c', v', s')"
      "unvisited_nodes h v' \<subseteq> unvisited_nodes h ?v1"
      by blast
    show ?thesis
      using True Suc.prems vis l sub by auto
  qed
qed

text \<open>Statements: the log of a recording visitor.\<close>

lemma depth_first_stmt_loop_log:
  assumes rec: "\<And>v s l n c v' s' l'. \<not> v n \<Longrightarrow>
      rec v (s, l) n = Inr (c, v', (s', l')) \<Longrightarrow>
      log_step (unvisited_nodes h v) (unvisited_nodes h v') l l' c"
  shows "depth_first_stmt_loop rec v (s, l) xs = Inr (c, v', (s', l')) \<Longrightarrow>
    log_step (unvisited_nodes h v) (unvisited_nodes h v') l l' c"
proof (induction xs arbitrary: v s l)
  case Nil
  then show ?case by (simp add: log_step_refl)
next
  case (Cons x xs)
  show ?case
  proof (cases "\<not> v x")
    case False
    then show ?thesis using Cons by (auto split: if_splits)
  next
    case True
    with Cons.prems obtain c1 v1 s1 l1 where r: "rec v (s, l) x = Inr (c1, v1, (s1, l1))"
      by (auto split: sum.splits)
    from rec [OF True r]
    have 1: "log_step (unvisited_nodes h v) (unvisited_nodes h v1) l l1 c1" .
    show ?thesis
    proof (cases c1)
      case False
      then show ?thesis using Cons.prems True r 1 by simp
    next
      case c1: True
      then have "depth_first_stmt_loop rec v1 (s1, l1) xs = Inr (c, v', (s', l'))"
        using Cons.prems True r by simp
      from Cons.IH [OF this] 1 c1 show ?thesis
        by (auto intro: log_step_trans)
    qed
  qed
qed

lemma depth_first_internal_stmt_log:
  "depth_first_internal_stmt k h forward (record_calls vis) v (s, l) n = Inr (c, v', (s', l')) \<Longrightarrow>
   log_step (unvisited_nodes h v) (unvisited_nodes h v') l l' c"
proof (induction k arbitrary: v s l n c v' s' l')
  case 0
  then show ?case by simp
next
  case (Suc k)
  from Suc.prems have n: "n < length h" "\<not> v n"
    by (auto split: if_splits)
  then have nU: "n \<in> unvisited_nodes h v" by (simp add: unvisited_nodes_def)
  obtain c1 s1 where vis: "vis s n = (c1, s1)" by (cases "vis s n")
  then have rc: "record_calls vis (s, l) n = (c1, (s1, l @ [(n, c1)]))"
    by (simp add: record_calls_def)
  show ?case
  proof (cases c1)
    case False
    with Suc.prems n rc have r: "c = False" "v' = v(n := True)" "l' = l @ [(n, False)]"
      by auto
    have "log_step (unvisited_nodes h v) (unvisited_nodes h (v(n := True))) l (l @ [(n, False)]) False"
      unfolding unvisited_nodes_mark using nU by (rule log_step_stop)
    then show ?thesis unfolding r .
  next
    case True
    with Suc.prems n rc
    have "depth_first_stmt_loop (depth_first_internal_stmt k h forward (record_calls vis)) (v(n := True))
        (s1, l @ [(n, True)]) (stmt_succ (h ! n)) = Inr (c, v', (s', l'))"
      by (auto split: if_splits)
    from depth_first_stmt_loop_log [where rec = "depth_first_internal_stmt k h forward (record_calls vis)"
        and h = h, OF _ this] Suc.IH
    have "log_step (unvisited_nodes h (v(n := True))) (unvisited_nodes h v') (l @ [(n, True)]) l' c"
      by blast
    then show ?thesis using nU by (auto simp: unvisited_nodes_mark intro: log_step_visit)
  qed
qed

lemma depth_first_stmt_log:
  "depth_first_stmt h start forward (record_calls vis) (s, []) = Inr (s', log) \<Longrightarrow>
   distinct (map fst log) \<and> stop_is_last log \<and> fst ` set log \<subseteq> {..<length h}"
proof -
  assume "depth_first_stmt h start forward (record_calls vis) (s, []) = Inr (s', log)"
  then obtain c v' where "depth_first_internal_stmt (Suc (length h)) h forward (record_calls vis)
      (\<lambda>node. False) (s, []) start = Inr (c, v', (s', log))"
    by (auto simp: depth_first_stmt_def bindE_def simp del: depth_first_internal_stmt.simps
        split: sum.splits)
  from depth_first_internal_stmt_log [OF this]
  show ?thesis using log_step_from_empty by (fastforce simp: unvisited_nodes_init)
qed

lemma depth_first_stmt_returns:
  assumes "heap_closed h" and "start < length h"
  shows "\<exists>s'. depth_first_stmt h start True vis s = Inr s'"
proof -
  have "card (unvisited_nodes h (\<lambda>node. False)) \<le> Suc (length h)"
    by (simp add: unvisited_nodes_init)
  from depth_first_internal_stmt_returns [OF assms(1,2) _ this, of vis s]
  show ?thesis
    by (auto simp: depth_first_stmt_def bindE_def simp del: depth_first_internal_stmt.simps)
qed

text \<open>Statements, backward: the visitor is called on the start node, and the
  traversal returns only if it answers stop.\<close>

lemma depth_first_stmt_backward:
  "start < length h \<Longrightarrow>
   depth_first_stmt h start False vis s =
     (if fst (vis s start) then Inl ExpectsFailed else Inr (snd (vis s start)))"
  by (cases "vis s start") (simp add: depth_first_stmt_def bindE_def)

text \<open>Statements: a property of the visitor's state that every call on a node reachable
  over \<open>succ\<close> edges keeps is kept by the traversal.\<close>

lemma depth_first_stmt_loop_inv:
  assumes rec: "\<And>v s n c v' s'. P n \<Longrightarrow> I s \<Longrightarrow> rec v s n = Inr (c, v', s') \<Longrightarrow> I s'"
  shows "\<forall>x \<in> set xs. P x \<Longrightarrow> I s \<Longrightarrow> depth_first_stmt_loop rec v s xs = Inr (c, v', s') \<Longrightarrow> I s'"
proof (induction xs arbitrary: v s)
  case Nil
  then show ?case by simp
next
  case (Cons x xs)
  show ?case
  proof (cases "v x")
    case True
    then show ?thesis using Cons by simp
  next
    case False
    with Cons.prems obtain c1 v1 s1 where r: "rec v s x = Inr (c1, v1, s1)"
      by (auto split: sum.splits)
    from rec [OF _ Cons.prems(2) r] Cons.prems(1) have 1: "I s1" by simp
    show ?thesis
    proof (cases c1)
      case False
      then show ?thesis using Cons.prems \<open>\<not> v x\<close> r 1 by simp
    next
      case True
      then have "depth_first_stmt_loop rec v1 s1 xs = Inr (c, v', s')"
        using Cons.prems \<open>\<not> v x\<close> r by simp
      from Cons.IH [OF _ 1 this] Cons.prems(1) show ?thesis by simp
    qed
  qed
qed

lemma depth_first_internal_stmt_inv:
  assumes step: "\<And>s m. I s \<Longrightarrow> P m \<Longrightarrow> m < length h \<Longrightarrow> I (snd (vis s m))"
    and closed: "\<And>m x. P m \<Longrightarrow> m < length h \<Longrightarrow> x \<in> set (stmt_succ (h ! m)) \<Longrightarrow> P x"
  shows "P n \<Longrightarrow> I s \<Longrightarrow> depth_first_internal_stmt k h forward vis v s n = Inr (c, v', s') \<Longrightarrow> I s'"
proof (induction k arbitrary: v s n c v' s')
  case 0
  then show ?case by simp
next
  case (Suc k)
  from Suc.prems have n: "n < length h" "\<not> v n"
    by (auto split: if_splits)
  obtain c1 s1 where vis: "vis s n = (c1, s1)" by (cases "vis s n")
  from step [OF Suc.prems(2,1) n(1)] vis have I1: "I s1" by simp
  show ?case
  proof (cases c1)
    case False
    with Suc.prems n vis I1 show ?thesis by auto
  next
    case True
    with Suc.prems n vis
    have l: "depth_first_stmt_loop (depth_first_internal_stmt k h forward vis) (v(n := True)) s1
        (stmt_succ (h ! n)) = Inr (c, v', s')"
      by (auto split: if_splits)
    have P: "\<forall>x \<in> set (stmt_succ (h ! n)). P x"
      using closed [OF Suc.prems(1) n(1)] by simp
    have rec: "I s'" if "P n" "I s" "depth_first_internal_stmt k h forward vis v s n = Inr (c, v', s')"
      for v s n c v' s'
      using that by (rule Suc.IH)
    from depth_first_stmt_loop_inv [where rec = "depth_first_internal_stmt k h forward vis"
        and P = P and I = I, OF rec P I1 l]
    show ?thesis .
  qed
qed

lemma depth_first_stmt_inv:
  assumes step: "\<And>s m. I s \<Longrightarrow> P m \<Longrightarrow> m < length h \<Longrightarrow> I (snd (vis s m))"
    and closed: "\<And>m x. P m \<Longrightarrow> m < length h \<Longrightarrow> x \<in> set (stmt_succ (h ! m)) \<Longrightarrow> P x"
    and "P start" and "I s" and "depth_first_stmt h start forward vis s = Inr s'"
  shows "I s'"
proof -
  from assms(5) obtain c v' where "depth_first_internal_stmt (Suc (length h)) h forward vis
      (\<lambda>node. False) s start = Inr (c, v', s')"
    by (auto simp: depth_first_stmt_def bindE_def simp del: depth_first_internal_stmt.simps
        split: sum.splits)
  from depth_first_internal_stmt_inv [where I = I and P = P, OF step closed assms(3,4) this]
  show ?thesis .
qed

text \<open>Statements: a relation between the visited map and the visitor's state that every
  call keeps is kept by the traversal.\<close>

lemma depth_first_stmt_loop_rel:
  assumes rec: "\<And>v s n c v' s'. J v s \<Longrightarrow> \<not> v n \<Longrightarrow> rec v s n = Inr (c, v', s') \<Longrightarrow> J v' s'"
  shows "J v s \<Longrightarrow> depth_first_stmt_loop rec v s xs = Inr (c, v', s') \<Longrightarrow> J v' s'"
proof (induction xs arbitrary: v s)
  case Nil
  then show ?case by simp
next
  case (Cons x xs)
  show ?case
  proof (cases "v x")
    case True
    then show ?thesis using Cons by simp
  next
    case False
    with Cons.prems obtain c1 v1 s1 where r: "rec v s x = Inr (c1, v1, s1)"
      by (auto split: sum.splits)
    from rec [OF Cons.prems(1) False r] have 1: "J v1 s1" .
    show ?thesis
    proof (cases c1)
      case False
      then show ?thesis using Cons.prems \<open>\<not> v x\<close> r 1 by simp
    next
      case True
      then have "depth_first_stmt_loop rec v1 s1 xs = Inr (c, v', s')"
        using Cons.prems \<open>\<not> v x\<close> r by simp
      from Cons.IH [OF 1 this] show ?thesis .
    qed
  qed
qed

lemma depth_first_internal_stmt_rel:
  assumes step: "\<And>v s m. J v s \<Longrightarrow> m < length h \<Longrightarrow> \<not> v m \<Longrightarrow> J (v(m := True)) (snd (vis s m))"
  shows "J v s \<Longrightarrow> depth_first_internal_stmt k h forward vis v s n = Inr (c, v', s') \<Longrightarrow> J v' s'"
proof (induction k arbitrary: v s n c v' s')
  case 0
  then show ?case by simp
next
  case (Suc k)
  from Suc.prems have n: "n < length h" "\<not> v n"
    by (auto split: if_splits)
  obtain c1 s1 where vis: "vis s n = (c1, s1)" by (cases "vis s n")
  from step [OF Suc.prems(1) n] vis have J1: "J (v(n := True)) s1" by simp
  show ?case
  proof (cases c1)
    case False
    with Suc.prems n vis have "v' = v(n := True)" "s' = s1" by (auto simp: Let_def)
    with J1 show ?thesis by (simp only:)
  next
    case True
    with Suc.prems n vis
    have l: "depth_first_stmt_loop (depth_first_internal_stmt k h forward vis) (v(n := True)) s1
        (stmt_succ (h ! n)) = Inr (c, v', s')"
      by (auto split: if_splits)
    have rec: "J v' s'" if "J v s" "\<not> v n" "depth_first_internal_stmt k h forward vis v s n = Inr (c, v', s')"
      for v s n c v' s'
      using that(1,3) by (rule Suc.IH)
    from depth_first_stmt_loop_rel [where rec = "depth_first_internal_stmt k h forward vis" and J = J,
        OF rec J1 l]
    show ?thesis .
  qed
qed

text \<open>Statements: a traversal that returns false has just had a stop from its visitor.\<close>

lemma depth_first_stmt_loop_stopped:
  assumes rec: "\<And>v s n v' s'. rec v s n = Inr (False, v', s') \<Longrightarrow> B s'"
  shows "depth_first_stmt_loop rec v s xs = Inr (False, v', s') \<Longrightarrow> B s'"
proof (induction xs arbitrary: v s)
  case Nil
  then show ?case by simp
next
  case (Cons x xs)
  show ?case
  proof (cases "v x")
    case True
    then show ?thesis using Cons by simp
  next
    case False
    with Cons.prems obtain c1 v1 s1 where r: "rec v s x = Inr (c1, v1, s1)"
      by (auto split: sum.splits)
    show ?thesis
    proof (cases c1)
      case c1: False
      with Cons.prems False r have "s' = s1" by simp
      with rec [of v s x v1 s1] r c1 show ?thesis by simp
    next
      case True
      then have "depth_first_stmt_loop rec v1 s1 xs = Inr (False, v', s')"
        using Cons.prems False r by simp
      then show ?thesis by (rule Cons.IH)
    qed
  qed
qed

lemma depth_first_internal_stmt_stopped:
  assumes stop: "\<And>s m. \<not> fst (vis s m) \<Longrightarrow> B (snd (vis s m))"
  shows "depth_first_internal_stmt k h forward vis v s n = Inr (False, v', s') \<Longrightarrow> B s'"
proof (induction k arbitrary: v s n v' s')
  case 0
  then show ?case by simp
next
  case (Suc k)
  from Suc.prems have n: "n < length h" "\<not> v n"
    by (auto split: if_splits)
  obtain c1 s1 where vis: "vis s n = (c1, s1)" by (cases "vis s n")
  show ?case
  proof (cases c1)
    case False
    with Suc.prems n vis have "s' = s1" by (auto simp: Let_def)
    with stop [of s n] vis False show ?thesis by simp
  next
    case True
    with Suc.prems n vis
    have l: "depth_first_stmt_loop (depth_first_internal_stmt k h forward vis) (v(n := True)) s1
        (stmt_succ (h ! n)) = Inr (False, v', s')"
      by (auto split: if_splits)
    from depth_first_stmt_loop_stopped [where rec = "depth_first_internal_stmt k h forward vis" and B = B,
        OF Suc.IH l]
    show ?thesis .
  qed
qed

text \<open>Statements: after a traversal that was not stopped, every node it marked has all
  its successors marked.\<close>

lemma marks_closed_refl: "marks_closed h v v"
  by (simp add: marks_closed_def)

lemma marks_closedD1: "marks_closed h v v' \<Longrightarrow> v x \<Longrightarrow> v' x"
  by (simp add: marks_closed_def)

lemma marks_closedD2:
  "marks_closed h v v' \<Longrightarrow> v' x \<Longrightarrow> \<not> v x \<Longrightarrow> x < length h \<and> (\<forall>y \<in> set (stmt_succ (h ! x)). v' y)"
  by (simp add: marks_closed_def)

lemma marks_closedI:
  assumes "\<And>x. v x \<Longrightarrow> v' x"
    and "\<And>x. v' x \<Longrightarrow> \<not> v x \<Longrightarrow> x < length h \<and> (\<forall>y \<in> set (stmt_succ (h ! x)). v' y)"
  shows "marks_closed h v v'"
proof -
  have a: "\<forall>x. v x \<longrightarrow> v' x" using assms(1) by blast
  have b: "\<forall>x. v' x \<and> \<not> v x \<longrightarrow> x < length h \<and> (\<forall>y \<in> set (stmt_succ (h ! x)). v' y)"
    using assms(2) by blast
  from a b show ?thesis unfolding marks_closed_def by (rule conjI)
qed

lemma marks_closed_trans:
  assumes 1: "marks_closed h v v1" and 2: "marks_closed h v1 v2"
  shows "marks_closed h v v2"
proof (rule marks_closedI)
  fix x assume "v x"
  then have "v1 x" using 1 by (simp add: marks_closedD1)
  then show "v2 x" using 2 by (simp add: marks_closedD1)
next
  fix x assume x: "v2 x" "\<not> v x"
  show "x < length h \<and> (\<forall>y \<in> set (stmt_succ (h ! x)). v2 y)"
  proof (cases "v1 x")
    case True
    from marks_closedD2 [OF 1 True x(2)] have "x < length h" "\<forall>y \<in> set (stmt_succ (h ! x)). v1 y"
      by simp_all
    then show ?thesis using marks_closedD1 [OF 2] by blast
  next
    case False
    from marks_closedD2 [OF 2 x(1) False] show ?thesis .
  qed
qed

lemma depth_first_stmt_loop_closed:
  assumes rec: "\<And>v s n v' s'. rec v s n = Inr (True, v', s') \<Longrightarrow> marks_closed h v v' \<and> v' n"
  shows "depth_first_stmt_loop rec v s xs = Inr (True, v', s') \<Longrightarrow>
    marks_closed h v v' \<and> (\<forall>y \<in> set xs. v' y)"
proof (induction xs arbitrary: v s)
  case Nil
  then show ?case by (simp add: marks_closed_refl)
next
  case (Cons x xs)
  show ?case
  proof (cases "v x")
    case True
    with Cons.prems have "depth_first_stmt_loop rec v s xs = Inr (True, v', s')" by simp
    from Cons.IH [OF this] have m: "marks_closed h v v'" and r: "\<forall>y \<in> set xs. v' y" by simp_all
    from marks_closedD1 [OF m True] m r show ?thesis by simp
  next
    case False
    with Cons.prems obtain c1 v1 s1 where r: "rec v s x = Inr (c1, v1, s1)"
      by (auto split: sum.splits)
    with Cons.prems False have c1: "c1 = True" by (auto split: if_splits)
    with Cons.prems False r have l: "depth_first_stmt_loop rec v1 s1 xs = Inr (True, v', s')" by simp
    from rec [of v s x v1 s1] r c1 have 1: "marks_closed h v v1" "v1 x" by simp_all
    from Cons.IH [OF l] have 2: "marks_closed h v1 v'" "\<forall>y \<in> set xs. v' y" by simp_all
    from marks_closedD1 [OF 2(1) 1(2)] have "v' x" .
    moreover from 1(1) 2(1) have "marks_closed h v v'" by (rule marks_closed_trans)
    ultimately show ?thesis using 2(2) by simp
  qed
qed

lemma depth_first_internal_stmt_closed:
  "depth_first_internal_stmt k h forward vis v s n = Inr (True, v', s') \<Longrightarrow>
   marks_closed h v v' \<and> v' n"
proof (induction k arbitrary: v s n v' s')
  case 0
  then show ?case by simp
next
  case (Suc k)
  from Suc.prems have n: "n < length h" "\<not> v n"
    by (auto split: if_splits)
  obtain c1 s1 where vis: "vis s n = (c1, s1)" by (cases "vis s n")
  with Suc.prems n have c1: "c1 = True" by (cases c1) (auto simp: Let_def)
  with Suc.prems n vis
  have l: "depth_first_stmt_loop (depth_first_internal_stmt k h forward vis) (v(n := True)) s1
      (stmt_succ (h ! n)) = Inr (True, v', s')"
    by (auto split: if_splits)
  from depth_first_stmt_loop_closed [where rec = "depth_first_internal_stmt k h forward vis" and h = h,
      OF Suc.IH l]
  have 1: "marks_closed h (v(n := True)) v'" "\<forall>y \<in> set (stmt_succ (h ! n)). v' y" by simp_all
  have vn: "v' n" using marks_closedD1 [OF 1(1), of n] by simp
  have "marks_closed h v v'"
  proof (rule marks_closedI)
    fix x assume "v x"
    then have "(v(n := True)) x" by simp
    then show "v' x" by (rule marks_closedD1 [OF 1(1)])
  next
    fix x assume x: "v' x" "\<not> v x"
    show "x < length h \<and> (\<forall>y \<in> set (stmt_succ (h ! x)). v' y)"
    proof (cases "x = n")
      case True
      with n 1(2) show ?thesis by simp
    next
      case False
      with x(2) have "\<not> (v(n := True)) x" by simp
      from marks_closedD2 [OF 1(1) x(1) this] show ?thesis .
    qed
  qed
  with vn show ?case by simp
qed

lemma marks_closed_reaches:
  assumes "marks_closed h (\<lambda>node. False) v'" and "v' n" and "(n, x) \<in> (succ_edges h)\<^sup>*"
  shows "v' x"
  using assms(3)
proof (induction rule: rtrancl_induct)
  case base
  then show ?case by (rule assms(2))
next
  case (step y z)
  from step.hyps(2) have "z \<in> set (stmt_succ (h ! y))" by (simp add: succ_edges_def)
  moreover from marks_closedD2 [OF assms(1) step.IH] have "\<forall>y' \<in> set (stmt_succ (h ! y)). v' y'"
    by simp
  ultimately show ?case by blast
qed

text \<open>The search of \<open>structure_dowhile\<close> finds a node for each id that has a located node.\<close>

lemma find_loop_nodes_head:
  "fst (snd (find_loop_nodes h loop (a, b) m)) =
     (if \<exists>f u gb gc. kind (h ! m) = StatementBlock (head loop) f u gb gc then Some m else a)"
  by (cases "kind (h ! m)") (simp_all add: find_loop_nodes_def Let_def)

lemma find_loop_nodes_tail:
  "snd (snd (find_loop_nodes h loop (a, b) m)) =
     (if \<exists>f u gb gc. kind (h ! m) = StatementBlock (tail loop) f u gb gc then Some m else b)"
  by (cases "kind (h ! m)") (simp_all add: find_loop_nodes_def Let_def)

lemma find_loop_nodes_stop:
  "\<not> fst (find_loop_nodes h loop s m) \<Longrightarrow>
   fst (snd (find_loop_nodes h loop s m)) \<noteq> None \<and> snd (snd (find_loop_nodes h loop s m)) \<noteq> None"
  by (cases s; cases "kind (h ! m)") (simp_all add: find_loop_nodes_def Let_def)

lemma seen_ids_step:
  assumes "seen_ids h loop v s"
  shows "seen_ids h loop (v(m := True)) (snd (find_loop_nodes h loop s m))"
proof -
  obtain a b where s: "s = (a, b)" by (cases s)
  let ?H = "\<lambda>n. \<exists>f u gb gc. kind (h ! n) = StatementBlock (head loop) f u gb gc"
  let ?T = "\<lambda>n. \<exists>f u gb gc. kind (h ! n) = StatementBlock (tail loop) f u gb gc"
  from assms have a: "a \<noteq> None" if "v n" "?H n" for n
    using that unfolding seen_ids_def s by auto
  from assms have b: "b \<noteq> None" if "v n" "?T n" for n
    using that unfolding seen_ids_def s by auto
  have 1: "fst (snd (find_loop_nodes h loop s m)) \<noteq> None" if "(v(m := True)) n" "?H n" for n
  proof (cases "n = m")
    case True
    with that(2) show ?thesis unfolding s find_loop_nodes_head by simp
  next
    case False
    with that have "a \<noteq> None" by (intro a [of n]) simp_all
    then show ?thesis unfolding s find_loop_nodes_head by simp
  qed
  have 2: "snd (snd (find_loop_nodes h loop s m)) \<noteq> None" if "(v(m := True)) n" "?T n" for n
  proof (cases "n = m")
    case True
    with that(2) show ?thesis unfolding s find_loop_nodes_tail by simp
  next
    case False
    with that have "b \<noteq> None" by (intro b [of n]) simp_all
    then show ?thesis unfolding s find_loop_nodes_tail by simp
  qed
  show ?thesis unfolding seen_ids_def using 1 2 by blast
qed

lemma find_loop_nodes_complete:
  assumes closed: "heap_closed h" and entry: "entry_node < length h"
    and x: "located h entry_node (head loop) x" and y: "located h entry_node (tail loop) y"
  shows "\<exists>hn tn. depth_first_stmt h entry_node True (find_loop_nodes h loop) (None, None)
    = Inr (Some hn, Some tn)"
proof -
  let ?vis = "find_loop_nodes h loop"
  have card: "card (unvisited_nodes h (\<lambda>node. False)) \<le> Suc (length h)"
    by (simp add: unvisited_nodes_init)
  from depth_first_internal_stmt_returns [OF closed entry _ card, of ?vis "(None, None)"]
  obtain c v' s' where r: "depth_first_internal_stmt (Suc (length h)) h True ?vis (\<lambda>node. False)
      (None, None) entry_node = Inr (c, v', s')"
    by auto
  have J0: "seen_ids h loop (\<lambda>node. False) (None, None)" by (simp add: seen_ids_def)
  have step: "seen_ids h loop (v(m := True)) (snd (?vis s m))"
    if "seen_ids h loop v s" "m < length h" "\<not> v m" for v s m
    using that(1) by (rule seen_ids_step)
  from depth_first_internal_stmt_rel [where J = "seen_ids h loop" and vis = ?vis, OF step J0 r]
  have J: "seen_ids h loop v' s'" .
  have B: "fst s' \<noteq> None \<and> snd s' \<noteq> None"
  proof (cases c)
    case False
    with r have f: "depth_first_internal_stmt (Suc (length h)) h True ?vis (\<lambda>node. False)
      (None, None) entry_node = Inr (False, v', s')" by simp
    from depth_first_internal_stmt_stopped
      [where B = "\<lambda>s :: nat option \<times> nat option. fst s \<noteq> None \<and> snd s \<noteq> None" and vis = ?vis,
        OF find_loop_nodes_stop f]
    show ?thesis .
  next
    case True
    with r have "depth_first_internal_stmt (Suc (length h)) h True ?vis (\<lambda>node. False)
      (None, None) entry_node = Inr (True, v', s')" by simp
    from depth_first_internal_stmt_closed [OF this]
    have mc: "marks_closed h (\<lambda>node. False) v'" and e: "v' entry_node" by simp_all
    from x have vx: "v' x" and kx: "\<exists>f u gb gc. kind (h ! x) = StatementBlock (head loop) f u gb gc"
      using marks_closed_reaches [OF mc e, of x] by (simp_all add: located_def)
    from y have vy: "v' y" and ky: "\<exists>f u gb gc. kind (h ! y) = StatementBlock (tail loop) f u gb gc"
      using marks_closed_reaches [OF mc e, of y] by (simp_all add: located_def)
    from J vx kx have "fst s' \<noteq> None" unfolding seen_ids_def by blast
    moreover from J vy ky have "snd s' \<noteq> None" unfolding seen_ids_def by blast
    ultimately show ?thesis by simp
  qed
  then obtain hn tn where "s' = (Some hn, Some tn)" by (cases s') auto
  with r show ?thesis
    by (auto simp: depth_first_stmt_def bindE_def simp del: depth_first_internal_stmt.simps)
qed

text \<open>Recording the calls does not change the run.\<close>

lemma depth_first_loop_forget:
  assumes rec: "\<And>v s l n. map_sum (\<lambda>e. e) (\<lambda>(c, v', (s', l')). (c, v', s')) (rec' v (s, l) n) = rec v s n"
  shows "map_sum (\<lambda>e. e) (\<lambda>(c, v', (s', l')). (c, v', s')) (depth_first_loop rec' v (s, l) xs)
       = depth_first_loop rec v s xs"
proof (induction xs arbitrary: v s l)
  case Nil
  then show ?case by simp
next
  case (Cons x xs)
  show ?case
  proof (cases "rec' v (s, l) x")
    case (Inl e)
    with rec [of v s l x] have "rec v s x = Inl e" by simp
    with Inl show ?thesis using Cons.IH by simp
  next
    case (Inr r)
    obtain c v1 s1 l1 where r: "r = (c, v1, (s1, l1))" by (cases r) auto
    with Inr rec [of v s l x] have "rec v s x = Inr (c, v1, s1)" by simp
    with Inr r show ?thesis using Cons.IH by simp
  qed
qed

lemma depth_first_internal_forget:
  "map_sum (\<lambda>e. e) (\<lambda>(c, v', (s', l')). (c, v', s'))
     (depth_first_internal k bl forward (record_calls vis) v (s, l) n)
   = depth_first_internal k bl forward vis v s n"
proof (induction k arbitrary: v s l n)
  case 0
  then show ?case by simp
next
  case (Suc k)
  obtain c1 s1 where vis: "vis s n = (c1, s1)" by (cases "vis s n")
  then have rc: "record_calls vis (s, l) n = (c1, (s1, l @ [(n, c1)]))"
    by (simp add: record_calls_def)
  show ?case
    using depth_first_loop_forget [where rec' = "depth_first_internal k bl forward (record_calls vis)"
        and rec = "depth_first_internal k bl forward vis", OF Suc.IH]
    by (simp add: vis rc Let_def)
qed

lemma depth_first_forget:
  "forget_log (depth_first bl start forward (record_calls vis) (s, l)) = depth_first bl start forward vis s"
  using depth_first_internal_forget [of "Suc (length (blocks bl))" bl forward vis
      "replicate (length (blocks bl)) False" s l start]
  by (auto simp: forget_log_def depth_first_def bindE_def Let_def
      simp del: depth_first_internal.simps split: sum.splits)

lemma depth_first_proc_loop_forget:
  assumes rec: "\<And>v s l n. map_sum (\<lambda>e. e) (\<lambda>(c, v', (s', l')). (c, v', s')) (rec' v (s, l) n) = rec v s n"
  shows "map_sum (\<lambda>e. e) (\<lambda>(c, v', (s', l')). (c, v', s')) (depth_first_proc_loop rec' v (s, l) xs)
       = depth_first_proc_loop rec v s xs"
proof (induction xs arbitrary: v s l)
  case Nil
  then show ?case by simp
next
  case (Cons x xs)
  show ?case
  proof (cases "rec' v (s, l) (xref_proc_id x)")
    case (Inl e)
    with rec [of v s l "xref_proc_id x"] have "rec v s (xref_proc_id x) = Inl e" by simp
    with Inl show ?thesis using Cons.IH by simp
  next
    case (Inr r)
    obtain c v1 s1 l1 where r: "r = (c, v1, (s1, l1))" by (cases r) auto
    with Inr rec [of v s l "xref_proc_id x"] have "rec v s (xref_proc_id x) = Inr (c, v1, s1)" by simp
    with Inr r show ?thesis using Cons.IH by simp
  qed
qed

lemma depth_first_internal_proc_forget:
  "map_sum (\<lambda>e. e) (\<lambda>(c, v', (s', l')). (c, v', s'))
     (depth_first_internal_proc k tag bl forward (record_calls vis) v (s, l) n)
   = depth_first_internal_proc k tag bl forward vis v s n"
proof (induction k arbitrary: v s l n)
  case 0
  then show ?case by simp
next
  case (Suc k)
  obtain c1 s1 where vis: "vis s n = (c1, s1)" by (cases "vis s n")
  then have rc: "record_calls vis (s, l) n = (c1, (s1, l @ [(n, c1)]))"
    by (simp add: record_calls_def)
  show ?case
    using depth_first_proc_loop_forget [where rec' = "depth_first_internal_proc k tag bl forward (record_calls vis)"
        and rec = "depth_first_internal_proc k tag bl forward vis", OF Suc.IH]
    by (simp add: vis rc Let_def)
qed

lemma depth_first_proc_forget:
  "forget_log (depth_first_proc tag bl start forward (record_calls vis) (s, l)) = depth_first_proc tag bl start forward vis s"
  using depth_first_internal_proc_forget [of "Suc (length (proc_entries bl))" tag bl forward vis
      "replicate (length (proc_entries bl)) False" s l start]
  by (auto simp: forget_log_def depth_first_proc_def bindE_def Let_def
      simp del: depth_first_internal_proc.simps split: sum.splits)

lemma depth_first_stmt_loop_forget:
  assumes rec: "\<And>v s l n. map_sum (\<lambda>e. e) (\<lambda>(c, v', (s', l')). (c, v', s')) (rec' v (s, l) n) = rec v s n"
  shows "map_sum (\<lambda>e. e) (\<lambda>(c, v', (s', l')). (c, v', s')) (depth_first_stmt_loop rec' v (s, l) xs)
       = depth_first_stmt_loop rec v s xs"
proof (induction xs arbitrary: v s l)
  case Nil
  then show ?case by simp
next
  case (Cons x xs)
  show ?case
  proof (cases "rec' v (s, l) x")
    case (Inl e)
    with rec [of v s l x] have "rec v s x = Inl e" by simp
    with Inl show ?thesis using Cons.IH by simp
  next
    case (Inr r)
    obtain c v1 s1 l1 where r: "r = (c, v1, (s1, l1))" by (cases r) auto
    with Inr rec [of v s l x] have "rec v s x = Inr (c, v1, s1)" by simp
    with Inr r show ?thesis using Cons.IH by simp
  qed
qed

lemma depth_first_internal_stmt_forget:
  "map_sum (\<lambda>e. e) (\<lambda>(c, v', (s', l')). (c, v', s'))
     (depth_first_internal_stmt k h forward (record_calls vis) v (s, l) n)
   = depth_first_internal_stmt k h forward vis v s n"
proof (induction k arbitrary: v s l n)
  case 0
  then show ?case by simp
next
  case (Suc k)
  obtain c1 s1 where vis: "vis s n = (c1, s1)" by (cases "vis s n")
  then have rc: "record_calls vis (s, l) n = (c1, (s1, l @ [(n, c1)]))"
    by (simp add: record_calls_def)
  show ?case
  proof (cases forward)
    case True
    then have f: "forward = True" by simp
    show ?thesis
      using depth_first_stmt_loop_forget [where rec' = "depth_first_internal_stmt k h True (record_calls vis)"
          and rec = "depth_first_internal_stmt k h True vis", OF Suc.IH [unfolded f]]
      unfolding f by (simp add: vis rc Let_def)
  next
    case False
    then show ?thesis by (simp add: vis rc Let_def)
  qed
qed

lemma depth_first_stmt_forget:
  "forget_log (depth_first_stmt h start forward (record_calls vis) (s, l)) = depth_first_stmt h start forward vis s"
  using depth_first_internal_stmt_forget [of "Suc (length h)" h forward vis
      "\<lambda>node. False" s l start]
  by (auto simp: forget_log_def depth_first_stmt_def bindE_def Let_def
      simp del: depth_first_internal_stmt.simps split: sum.splits)


text \<open>
  Claim C4. For the block graph, the call graph, the spawn graph and the statement graph,
  for every start node, direction and visitor: the traversal calls the visitor on each
  node at most once; once a call has answered stop no further call is made, so a stop is
  the last entry of the log; and the top-level call returns. Recording the calls changes
  nothing else about the run. The traversal returns on every graph whose neighbour lists
  stay inside the graph; on statements it returns in the forward direction, and in the
  backward direction it makes its one call on the start node and returns exactly when
  that call answers stop (the source asserts the forward direction after the call).
\<close>

theorem depth_first_visits_once:
  "(depth_first bl start forward (record_calls vis) (s, []) = Inr (s', log) \<longrightarrow>
      distinct (map fst log) \<and> stop_is_last log)
   \<and> (cfg_closed bl forward \<and> start < length (blocks bl) \<longrightarrow>
      (\<exists>r. depth_first bl start forward (record_calls vis) (s, []) = Inr r))
   \<and> forget_log (depth_first bl start forward (record_calls vis) (s, [])) =
      depth_first bl start forward vis s
   \<and> (depth_first_proc tag pl pstart pforward (record_calls pvis) (ps, []) = Inr (ps', plog) \<longrightarrow>
      distinct (map fst plog) \<and> stop_is_last plog)
   \<and> (xref_closed tag pl pforward \<and> pstart < length (proc_entries pl) \<longrightarrow>
      (\<exists>r. depth_first_proc tag pl pstart pforward (record_calls pvis) (ps, []) = Inr r))
   \<and> forget_log (depth_first_proc tag pl pstart pforward (record_calls pvis) (ps, [])) =
      depth_first_proc tag pl pstart pforward pvis ps
   \<and> (depth_first_stmt h node sforward (record_calls svis) (ss, []) = Inr (ss', slog) \<longrightarrow>
      distinct (map fst slog) \<and> stop_is_last slog)
   \<and> (heap_closed h \<and> node < length h \<longrightarrow>
      (\<exists>r. depth_first_stmt h node True (record_calls svis) (ss, []) = Inr r))
   \<and> (node < length h \<longrightarrow>
      depth_first_stmt h node False (record_calls svis) (ss, []) =
        (if fst (svis ss node) then Inl ExpectsFailed
         else Inr (snd (svis ss node), [(node, False)])))
   \<and> forget_log (depth_first_stmt h node sforward (record_calls svis) (ss, [])) =
      depth_first_stmt h node sforward svis ss"
proof -
  have bwd: "depth_first_stmt h node False (record_calls svis) (ss, []) =
        (if fst (svis ss node) then Inl ExpectsFailed
         else Inr (snd (svis ss node), [(node, False)]))" if "node < length h"
    using depth_first_stmt_backward [OF that, of "record_calls svis" "(ss, [])"]
    by (cases "svis ss node") (simp add: record_calls_def)
  show ?thesis
    using depth_first_log [of bl start forward vis s s' log]
      depth_first_returns [of bl forward start "record_calls vis" "(s, [])"]
      depth_first_proc_log [of tag pl pstart pforward pvis ps ps' plog]
      depth_first_proc_returns [of tag pl pforward pstart "record_calls pvis" "(ps, [])"]
      depth_first_stmt_log [of h node sforward svis ss ss' slog]
      depth_first_stmt_returns [of h node "record_calls svis" "(ss, [])"]
      bwd
    by (simp add: depth_first_forget depth_first_proc_forget depth_first_stmt_forget)
qed

lemma depth_first_cfg_self_run:
  "depth_first cfg_self 0 True (record_calls (stop_at 1)) ((), []) = Inr ((), [(0, True), (1, False)])"
  by (simp add: depth_first_def cfg_self_def mk_cfg_def mk_block_def record_calls_def stop_at_def
      bindE_def)

lemma depth_first_three_procs_run:
  "depth_first_proc call_graph three_procs 0 True (record_calls (stop_at 5)) ((), []) =
     Inr ((), [(0, True), (1, True), (2, True)])"
  by (simp add: depth_first_proc_def three_procs_def mk_proc_def xref_def record_calls_def stop_at_def
      bindE_def iter_vec_def)

lemma depth_first_heap_cycle_run:
  "depth_first_stmt heap_cycle 0 True (record_calls (stop_at 5)) ((), []) =
     Inr ((), [(0, True), (1, True)])"
  by (simp add: depth_first_stmt_def heap_cycle_def record_calls_def stop_at_def bindE_def)

theorem depth_first_visits_once_witness:
  "depth_first cfg_self 0 True (record_calls (stop_at 1)) ((), []) = Inr ((), [(0, True), (1, False)])
   \<and> cfg_closed cfg_self True \<and> (0::nat) < length (blocks cfg_self)
   \<and> distinct (map fst [(0::nat, True), (1, False)]) \<and> stop_is_last [(0::nat, True), (1, False)]
   \<and> depth_first_proc call_graph three_procs 0 True (record_calls (stop_at 5)) ((), []) =
        Inr ((), [(0, True), (1, True), (2, True)])
   \<and> xref_closed call_graph three_procs True \<and> (0::nat) < length (proc_entries three_procs)
   \<and> stop_is_last [(0::nat, True), (1, True), (2, True)]
   \<and> depth_first_stmt heap_cycle 0 True (record_calls (stop_at 5)) ((), []) =
        Inr ((), [(0, True), (1, True)])
   \<and> heap_closed heap_cycle \<and> (0::nat) < length heap_cycle
   \<and> depth_first_stmt heap_cycle 0 False (record_calls (stop_at 5)) ((), []) = Inl ExpectsFailed"
proof -
  have c: "cfg_closed cfg_self True" "(0::nat) < length (blocks cfg_self)"
    by (simp_all add: cfg_closed_def cfg_self_def mk_cfg_def mk_block_def)
  have x: "xref_closed call_graph three_procs True" "(0::nat) < length (proc_entries three_procs)"
    by (simp_all add: xref_closed_def three_procs_def mk_proc_def xref_def iter_vec_def)
  have hc: "heap_closed heap_cycle" "(0::nat) < length heap_cycle"
    by (simp_all add: heap_closed_def heap_cycle_def)
  show ?thesis
    using depth_first_visits_once [of cfg_self 0 True "stop_at 1" "()" "()" "[(0, True), (1, False)]"
        call_graph three_procs 0 True "stop_at 5" "()" "()" "[(0, True), (1, True), (2, True)]"
        heap_cycle 0 True "stop_at 5" "()" "()" "[(0, True), (1, True)]"]
      depth_first_cfg_self_run depth_first_three_procs_run depth_first_heap_cycle_run c x hc
    by (simp add: stop_at_def)
qed

subsection \<open>From blocks to statements\<close>

lemma add_successor_Inr:
  "a < length h \<Longrightarrow> b < length h \<Longrightarrow> \<exists>h'. add_successor h a b = Inr h'"
  by (simp add: add_successor_def Let_def)

lemma add_successor_length:
  "add_successor h a b = Inr h' \<Longrightarrow> length h' = length h"
  by (auto simp: add_successor_def Let_def split: if_splits)

lemma add_successor_kind:
  "add_successor h a b = Inr h' \<Longrightarrow> kind (h' ! n) = kind (h ! n)"
  by (auto simp: add_successor_def Let_def nth_list_update split: if_splits)

lemma add_successor_succ:
  "add_successor h a b = Inr h' \<Longrightarrow>
   stmt_succ (h' ! n) = (if n = a then stmt_succ (h ! a) @ [b] else stmt_succ (h ! n))"
  by (auto simp: add_successor_def Let_def nth_list_update split: if_splits)

lemma add_successor_pred:
  "add_successor h a b = Inr h' \<Longrightarrow>
   stmt_pred (h' ! n) = (if n = b then stmt_pred (h ! b) @ [a] else stmt_pred (h ! n))"
  by (auto simp: add_successor_def Let_def nth_list_update split: if_splits)

lemma add_successor_expired:
  "add_successor h a b = Inr h' \<Longrightarrow> expired (h' ! n) = expired (h ! n)"
  by (auto simp: add_successor_def Let_def nth_list_update split: if_splits)

lemma none_expired_iff:
  "list_all (\<lambda>cell. \<not> expired cell) h \<longleftrightarrow> (\<forall>n < length h. \<not> expired (h ! n))"
  by (simp add: list_all_iff all_set_conv_all_nth)

lemma add_successor_valid:
  "add_successor h a b = Inr h' \<Longrightarrow> a < length h \<and> b < length h"
  by (auto simp: add_successor_def split: if_splits)

lemma heap_closed_iff:
  "heap_closed h \<longleftrightarrow> (\<forall>n < length h. \<forall>x \<in> set (stmt_succ (h ! n)). x < length h)"
  by (simp add: heap_closed_def list_all_iff all_set_conv_all_nth)

lemma add_successor_closed:
  "add_successor h a b = Inr h' \<Longrightarrow> heap_closed h \<Longrightarrow> heap_closed h'"
  using add_successor_valid [of h a b h']
  by (auto simp: heap_closed_iff add_successor_length add_successor_succ)

lemma add_successor_symmetric:
  assumes "add_successor h a b = Inr h'" and "stmt_symmetric h"
  shows "stmt_symmetric h'"
  using assms(2) unfolding stmt_symmetric_def
  by (auto simp: add_successor_length [OF assms(1)] add_successor_succ [OF assms(1)]
      add_successor_pred [OF assms(1)] count_list_snoc)

lemma preds_closed_iff:
  "preds_closed h \<longleftrightarrow> (\<forall>n < length h. \<forall>x \<in> set (stmt_pred (h ! n)). x < length h)"
  by (simp add: preds_closed_def list_all_iff all_set_conv_all_nth)

lemma add_successor_preds_closed:
  "add_successor h a b = Inr h' \<Longrightarrow> preds_closed h \<Longrightarrow> preds_closed h'"
  using add_successor_valid [of h a b h']
  by (auto simp: preds_closed_iff add_successor_length add_successor_pred)

lemma add_successor_inv:
  assumes "add_successor h a b = Inr h'" and "stmt_inv bl (h, m)"
  shows "stmt_inv bl (h', m)"
  using assms(2) add_successor_closed [OF assms(1)] add_successor_symmetric [OF assms(1)]
    add_successor_preds_closed [OF assms(1)]
  by (simp add: stmt_inv_def add_successor_length [OF assms(1)] add_successor_kind [OF assms(1)]
      none_expired_iff add_successor_expired [OF assms(1)])

lemma heap_closed_alloc:
  "heap_closed h \<Longrightarrow> stmt_succ x = [] \<Longrightarrow> heap_closed (h @ [x])"
  by (auto simp: heap_closed_iff nth_append less_Suc_eq)

lemma preds_closed_alloc:
  "preds_closed h \<Longrightarrow> stmt_pred x = [] \<Longrightarrow> preds_closed (h @ [x])"
  by (auto simp: preds_closed_iff nth_append less_Suc_eq)

lemma count_list_0: "x \<notin> set xs \<Longrightarrow> count_list xs x = 0"
  by (induction xs) auto

lemma stmt_symmetric_alloc:
  assumes "stmt_symmetric h" and "heap_closed h" and "preds_closed h"
    and "stmt_succ x = []" and "stmt_pred x = []"
  shows "stmt_symmetric (h @ [x])"
proof -
  have s: "count_list (stmt_succ (h ! i)) (length h) = 0" if "i < length h" for i
    using assms(2) that by (intro count_list_0) (auto simp: heap_closed_iff)
  have p: "count_list (stmt_pred (h ! j)) (length h) = 0" if "j < length h" for j
    using assms(3) that by (intro count_list_0) (auto simp: preds_closed_iff)
  show ?thesis
    using assms(1,4,5) s p
    by (auto simp: stmt_symmetric_def nth_append less_Suc_eq)
qed

lemma alloc_block_inv:
  assumes "stmt_inv bl (h, m)" and "m b = None" and "b < length (blocks bl)"
  shows "stmt_inv bl (h @ [new_StatementBlock b], m(b \<mapsto> length h))"
proof -
  let ?x = "new_StatementBlock b"
  have e: "stmt_succ ?x = []" "stmt_pred ?x = []" "kind ?x = StatementBlock b 0 0 False False"
    "\<not> expired ?x"
    by (simp_all add: new_StatementBlock_def)
  from assms(1) have c: "heap_closed h" "preds_closed h" "stmt_symmetric h"
    by (simp_all add: stmt_inv_def)
  have 1: "heap_closed (h @ [?x])" "preds_closed (h @ [?x])" "stmt_symmetric (h @ [?x])"
    using c e by (simp_all add: heap_closed_alloc preds_closed_alloc stmt_symmetric_alloc)
  have 2: "b' < length (blocks bl) \<and> n < length (h @ [?x])
      \<and> kind ((h @ [?x]) ! n) = StatementBlock b' 0 0 False False"
    if "(m(b \<mapsto> length h)) b' = Some n" for b' n
    using that assms e by (auto simp: stmt_inv_def nth_append split: if_splits)
  have 3: "\<exists>b'. kind ((h @ [?x]) ! n) = StatementBlock b' 0 0 False False
      \<and> (m(b \<mapsto> length h)) b' = Some n" if "n < length (h @ [?x])" for n
  proof (cases "n < length h")
    case True
    with assms(1) obtain b' where "kind (h ! n) = StatementBlock b' 0 0 False False" "m b' = Some n"
      by (auto simp: stmt_inv_def)
    with True assms(2) show ?thesis by (auto simp: nth_append)
  next
    case False
    with that have "n = length h" by simp
    then show ?thesis using e by simp
  qed
  from assms(1) e(4) have 4: "list_all (\<lambda>cell. \<not> expired cell) (h @ [?x])"
    by (simp add: stmt_inv_def)
  show ?thesis
    unfolding stmt_inv_def using 1 2 3 4 by auto
qed

lemma stmt_inv_kind_same:
  assumes "stmt_inv bl (h, m)" and "stmt_inv bl (h', m')" and "m \<subseteq>\<^sub>m m'" and "n < length h"
  shows "kind (h' ! n) = kind (h ! n)"
proof -
  from assms(1,4) obtain b where b: "kind (h ! n) = StatementBlock b 0 0 False False" "m b = Some n"
    by (auto simp: stmt_inv_def)
  with assms(3) have "m' b = Some n" by (auto simp: map_le_def dom_def)
  with assms(2) b show ?thesis by (auto simp: stmt_inv_def)
qed

lemma complete_mono:
  assumes "complete bl (h, m) n" and "m \<subseteq>\<^sub>m m'"
    and "stmt_succ (h' ! n) = stmt_succ (h ! n)" and "kind (h' ! n) = kind (h ! n)"
  shows "complete bl (h', m') n"
proof -
  from assms(1) obtain b where b: "kind (h ! n) = StatementBlock b 0 0 False False"
    "map Some (stmt_succ (h ! n)) = map m (succ (blocks bl ! b))"
    by (auto simp: complete_def)
  have "m' y = m y" if "y \<in> set (succ (blocks bl ! b))" for y
  proof -
    from that have "m y \<in> set (map m (succ (blocks bl ! b)))" by simp
    then have "m y \<in> set (map Some (stmt_succ (h ! n)))" by (simp only: b(2))
    then obtain z where "m y = Some z" by auto
    with assms(2) show ?thesis by (auto simp: map_le_def dom_def)
  qed
  then have "map m' (succ (blocks bl ! b)) = map m (succ (blocks bl ! b))" by simp
  with b assms(3,4) show ?thesis by (simp add: complete_def)
qed

lemma finite_unregistered: "finite (unregistered bl m)"
  by (simp add: unregistered_def)

lemma unregistered_mono: "m \<subseteq>\<^sub>m m' \<Longrightarrow> unregistered bl m' \<subseteq> unregistered bl m"
  by (auto simp: unregistered_def map_le_def dom_def)

lemma card_unregistered_mono:
  "m \<subseteq>\<^sub>m m' \<Longrightarrow> card (unregistered bl m) \<le> k \<Longrightarrow> card (unregistered bl m') \<le> k"
  using card_mono [OF finite_unregistered unregistered_mono, of m m' bl] by simp

lemma card_unregistered_upd:
  assumes "b < length (blocks bl)" and "m b = None" and "card (unregistered bl m) \<le> Suc k"
  shows "card (unregistered bl (m(b \<mapsto> n))) \<le> k"
proof -
  have "unregistered bl (m(b \<mapsto> n)) = unregistered bl m - {b}"
    by (auto simp: unregistered_def)
  moreover have "b \<in> unregistered bl m" using assms by (simp add: unregistered_def)
  ultimately show ?thesis using assms(3) by (simp add: finite_unregistered)
qed

lemma stmt_inv_lookup:
  "stmt_inv bl (h, m) \<Longrightarrow> m b = Some n \<Longrightarrow> n < length h"
  by (auto simp: stmt_inv_def)

lemma to_statements_loop_spec:
  assumes rec: "\<And>b h m. stmt_inv bl (h, m) \<Longrightarrow> b < length (blocks bl) \<Longrightarrow> m b = None \<Longrightarrow>
      card (unregistered bl m) \<le> k \<Longrightarrow>
      \<exists>s'. rec b (h, m) = Inr (length h, s') \<and> internal_post bl b (h, m) s'"
  shows "stmt_inv bl (h, m) \<Longrightarrow> node < length h \<Longrightarrow> card (unregistered bl m) \<le> k \<Longrightarrow>
    \<forall>x \<in> set rest. x < length (blocks bl) \<Longrightarrow>
    \<exists>s'. to_statements_loop rec node rest (h, m) = Inr s' \<and> loop_post bl node rest (h, m) s'"
proof (induction rest arbitrary: h m)
  case Nil
  then show ?case by (auto simp: loop_post_def)
next
  case (Cons x rest)
  from Cons.prems(4) have rest: "\<forall>x \<in> set rest. x < length (blocks bl)" and x: "x < length (blocks bl)"
    by simp_all
  show ?case
  proof (cases "m x")
    case (Some found)
    with Cons.prems(1) have f: "found < length h" by (rule stmt_inv_lookup)
    from add_successor_Inr [OF Cons.prems(2) f] obtain h1 where a: "add_successor h node found = Inr h1"
      by blast
    note len1 = add_successor_length [OF a]
    have inv1: "stmt_inv bl (h1, m)" using a Cons.prems(1) by (rule add_successor_inv)
    from Cons.IH [OF inv1 _ Cons.prems(3) rest] Cons.prems(2) len1
    obtain h' m' where l: "to_statements_loop rec node rest (h1, m) = Inr (h', m')"
      and p: "loop_post bl node rest (h1, m) (h', m')"
      by auto
    have run: "to_statements_loop rec node (x # rest) (h, m) = Inr (h', m')"
      using Some a l by (simp add: bindE_def)
    from p have le: "m \<subseteq>\<^sub>m m'" by (simp add: loop_post_def)
    with Some have m'x: "m' x = Some found" by (auto simp: map_le_def dom_def)
    have "loop_post bl node (x # rest) (h, m) (h', m')"
      unfolding loop_post_def fst_conv snd_conv
    proof (intro conjI)
      show "stmt_inv bl (h', m')" using p by (simp add: loop_post_def)
      show "m \<subseteq>\<^sub>m m'" by (rule le)
      show "length h \<le> length h'" using p len1 by (simp add: loop_post_def)
      show "\<forall>n<length h. n \<noteq> node \<longrightarrow> stmt_succ (h' ! n) = stmt_succ (h ! n)"
        using p len1 by (simp add: loop_post_def add_successor_succ [OF a])
      show "map Some (stmt_succ (h' ! node)) = map Some (stmt_succ (h ! node)) @ map m' (x # rest)"
        using p m'x by (simp add: loop_post_def add_successor_succ [OF a])
      show "\<forall>n. length h \<le> n \<and> n < length h' \<longrightarrow> complete bl (h', m') n"
        using p len1 by (simp add: loop_post_def)
      show "dom m' \<subseteq> dom m \<union> (cfg_edges bl)\<^sup>* `` set (x # rest)"
        using p by (auto simp: loop_post_def)
    qed
    with run show ?thesis by blast
  next
    case None
    from rec [OF Cons.prems(1) x None Cons.prems(3)]
    obtain h1 m1 where r: "rec x (h, m) = Inr (length h, (h1, m1))"
      and q: "internal_post bl x (h, m) (h1, m1)"
      by auto
    from q have inv1: "stmt_inv bl (h1, m1)" and le1: "m \<subseteq>\<^sub>m m1" and len1: "length h < length h1"
      and m1x: "m1 x = Some (length h)"
      and frame1: "\<forall>n<length h. stmt_succ (h1 ! n) = stmt_succ (h ! n)"
      and new1: "\<forall>n. length h \<le> n \<and> n < length h1 \<longrightarrow> complete bl (h1, m1) n"
      and dom1: "dom m1 \<subseteq> dom m \<union> (cfg_edges bl)\<^sup>* `` {x}"
      by (simp_all add: internal_post_def)
    have node1: "node < length h1" using Cons.prems(2) len1 by simp
    from add_successor_Inr [OF node1 len1] obtain h2 where a: "add_successor h1 node (length h) = Inr h2"
      by blast
    note len2 = add_successor_length [OF a]
    have inv2: "stmt_inv bl (h2, m1)" using a inv1 by (rule add_successor_inv)
    have card1: "card (unregistered bl m1) \<le> k"
      using le1 Cons.prems(3) by (rule card_unregistered_mono)
    from Cons.IH [OF inv2 _ card1 rest] node1 len2
    obtain h' m' where l: "to_statements_loop rec node rest (h2, m1) = Inr (h', m')"
      and p: "loop_post bl node rest (h2, m1) (h', m')"
      by auto
    have run: "to_statements_loop rec node (x # rest) (h, m) = Inr (h', m')"
      using None r a l by (simp add: bindE_def)
    from p have inv': "stmt_inv bl (h', m')" and le2: "m1 \<subseteq>\<^sub>m m'" and len': "length h2 \<le> length h'"
      and frame2: "\<forall>n<length h2. n \<noteq> node \<longrightarrow> stmt_succ (h' ! n) = stmt_succ (h2 ! n)"
      and node2: "map Some (stmt_succ (h' ! node)) = map Some (stmt_succ (h2 ! node)) @ map m' rest"
      and new2: "\<forall>n. length h2 \<le> n \<and> n < length h' \<longrightarrow> complete bl (h', m') n"
      and dom2: "dom m' \<subseteq> dom m1 \<union> (cfg_edges bl)\<^sup>* `` set rest"
      by (simp_all add: loop_post_def)
    from le2 m1x have m'x: "m' x = Some (length h)" by (auto simp: map_le_def dom_def)
    have "loop_post bl node (x # rest) (h, m) (h', m')"
      unfolding loop_post_def fst_conv snd_conv
    proof (intro conjI)
      show "stmt_inv bl (h', m')" by (rule inv')
      show "m \<subseteq>\<^sub>m m'" using le1 le2 by (rule map_le_trans)
      show "length h \<le> length h'" using len1 len2 len' by simp
      show "\<forall>n<length h. n \<noteq> node \<longrightarrow> stmt_succ (h' ! n) = stmt_succ (h ! n)"
        using frame1 frame2 len1 len2 by (simp add: add_successor_succ [OF a])
      show "map Some (stmt_succ (h' ! node)) = map Some (stmt_succ (h ! node)) @ map m' (x # rest)"
        using node2 m'x frame1 Cons.prems(2) by (simp add: add_successor_succ [OF a])
      show "\<forall>n. length h \<le> n \<and> n < length h' \<longrightarrow> complete bl (h', m') n"
      proof (intro allI impI)
        fix n assume n: "length h \<le> n \<and> n < length h'"
        show "complete bl (h', m') n"
        proof (cases "n < length h1")
          case True
          with n new1 have c: "complete bl (h1, m1) n" by simp
          have ne: "n \<noteq> node" using n Cons.prems(2) by simp
          have s: "stmt_succ (h' ! n) = stmt_succ (h1 ! n)"
            using frame2 True len2 ne by (simp add: add_successor_succ [OF a])
          have k: "kind (h' ! n) = kind (h1 ! n)"
            using inv1 inv' le2 True by (rule stmt_inv_kind_same)
          from c le2 s k show ?thesis by (rule complete_mono)
        next
          case False
          with n new2 len2 show ?thesis by simp
        qed
      qed
      show "dom m' \<subseteq> dom m \<union> (cfg_edges bl)\<^sup>* `` set (x # rest)"
      proof
        fix y assume "y \<in> dom m'"
        with dom2 consider "y \<in> dom m1" | "y \<in> (cfg_edges bl)\<^sup>* `` set rest" by blast
        then show "y \<in> dom m \<union> (cfg_edges bl)\<^sup>* `` set (x # rest)"
        proof cases
          case 1
          with dom1 have "y \<in> dom m \<or> y \<in> (cfg_edges bl)\<^sup>* `` {x}" by blast
          then show ?thesis by auto
        next
          case 2
          then show ?thesis by auto
        qed
      qed
    qed
    with run show ?thesis by blast
  qed
qed

lemma cfg_closed_succ:
  "cfg_closed bl True \<Longrightarrow> b < length (blocks bl) \<Longrightarrow>
   \<forall>x \<in> set (succ (blocks bl ! b)). x < length (blocks bl)"
  using cfg_closedD [of bl True b] by simp

lemma cfg_edges_step:
  "b < length (blocks bl) \<Longrightarrow> (cfg_edges bl)\<^sup>* `` set (succ (blocks bl ! b)) \<subseteq> (cfg_edges bl)\<^sup>* `` {b}"
proof
  fix y assume b: "b < length (blocks bl)" and "y \<in> (cfg_edges bl)\<^sup>* `` set (succ (blocks bl ! b))"
  then obtain x where x: "x \<in> set (succ (blocks bl ! b))" "(x, y) \<in> (cfg_edges bl)\<^sup>*"
    by auto
  from b x(1) have "(b, x) \<in> cfg_edges bl" by (simp add: cfg_edges_def)
  then have "(b, y) \<in> (cfg_edges bl)\<^sup>*" using x(2) by (rule converse_rtrancl_into_rtrancl)
  then show "y \<in> (cfg_edges bl)\<^sup>* `` {b}" by simp
qed

lemma to_statements_internal_spec:
  assumes closed: "cfg_closed bl True"
  shows "stmt_inv bl (h, m) \<Longrightarrow> b < length (blocks bl) \<Longrightarrow> m b = None \<Longrightarrow>
    card (unregistered bl m) \<le> k \<Longrightarrow>
    \<exists>s'. to_statements_internal k bl b (h, m) = Inr (length h, s') \<and> internal_post bl b (h, m) s'"
proof (induction k arbitrary: h m b)
  case 0
  then have "b \<in> unregistered bl m" by (simp add: unregistered_def)
  with 0 show ?case using finite_unregistered [of bl m] by auto
next
  case (Suc k)
  let ?h1 = "h @ [new_StatementBlock b]"
  let ?m1 = "m(b \<mapsto> length h)"
  let ?rest = "succ (blocks bl ! b)"
  have inv1: "stmt_inv bl (?h1, ?m1)"
    using Suc.prems(1,3,2) by (rule alloc_block_inv)
  have card1: "card (unregistered bl ?m1) \<le> k"
    using Suc.prems(2,3,4) by (rule card_unregistered_upd)
  have rec: "\<exists>s'. to_statements_internal k bl b (h, m) = Inr (length h, s')
      \<and> internal_post bl b (h, m) s'"
    if "stmt_inv bl (h, m)" "b < length (blocks bl)" "m b = None" "card (unregistered bl m) \<le> k"
    for b h m
    using that by (rule Suc.IH)
  have node1: "length h < length ?h1" by simp
  from to_statements_loop_spec [where rec = "to_statements_internal k bl" and node = "length h"
      and rest = ?rest, OF rec inv1 node1 card1 cfg_closed_succ [OF closed Suc.prems(2)]]
  obtain s' where "to_statements_loop (to_statements_internal k bl) (length h) ?rest (?h1, ?m1) = Inr s'"
    and "loop_post bl (length h) ?rest (?h1, ?m1) s'"
    by blast
  then obtain h' m' where l: "to_statements_loop (to_statements_internal k bl) (length h) ?rest (?h1, ?m1)
      = Inr (h', m')"
    and p: "loop_post bl (length h) ?rest (?h1, ?m1) (h', m')"
    by (cases s') auto
  have run: "to_statements_internal (Suc k) bl b (h, m) = Inr (length h, (h', m'))"
    using Suc.prems(2,3) l by (simp add: map_emplace_def bindE_def Let_def)
  from p have inv': "stmt_inv bl (h', m')" and le: "?m1 \<subseteq>\<^sub>m m'" and len: "length ?h1 \<le> length h'"
    and frame: "\<forall>n<length ?h1. n \<noteq> length h \<longrightarrow> stmt_succ (h' ! n) = stmt_succ (?h1 ! n)"
    and node: "map Some (stmt_succ (h' ! length h)) = map Some (stmt_succ (?h1 ! length h)) @ map m' ?rest"
    and new: "\<forall>n. length ?h1 \<le> n \<and> n < length h' \<longrightarrow> complete bl (h', m') n"
    and dom: "dom m' \<subseteq> dom ?m1 \<union> (cfg_edges bl)\<^sup>* `` set ?rest"
    by (simp_all add: loop_post_def)
  from le have m'b: "m' b = Some (length h)" by (auto simp: map_le_def dom_def)
  have lem: "m \<subseteq>\<^sub>m ?m1" using Suc.prems(3) by (auto simp: map_le_def dom_def)
  have "internal_post bl b (h, m) (h', m')"
    unfolding internal_post_def fst_conv snd_conv
  proof (intro conjI)
    show "stmt_inv bl (h', m')" by (rule inv')
    show "m \<subseteq>\<^sub>m m'" using lem le by (rule map_le_trans)
    show "length h < length h'" using len by simp
    show "m' b = Some (length h)" by (rule m'b)
    show "\<forall>n<length h. stmt_succ (h' ! n) = stmt_succ (h ! n)"
      using frame by (simp add: nth_append)
    show "\<forall>n. length h \<le> n \<and> n < length h' \<longrightarrow> complete bl (h', m') n"
    proof (intro allI impI)
      fix n assume n: "length h \<le> n \<and> n < length h'"
      show "complete bl (h', m') n"
      proof (cases "n = length h")
        case True
        from inv' m'b have "kind (h' ! length h) = StatementBlock b 0 0 False False"
          by (auto simp: stmt_inv_def)
        moreover have "map Some (stmt_succ (h' ! length h)) = map m' ?rest"
          using node by (simp add: new_StatementBlock_def)
        ultimately show ?thesis using True by (auto simp: complete_def)
      next
        case False
        with n new show ?thesis by simp
      qed
    qed
    show "dom m' \<subseteq> dom m \<union> (cfg_edges bl)\<^sup>* `` {b}"
    proof
      fix y assume "y \<in> dom m'"
      with dom have "y \<in> dom ?m1 \<or> y \<in> (cfg_edges bl)\<^sup>* `` set ?rest" by blast
      then show "y \<in> dom m \<union> (cfg_edges bl)\<^sup>* `` {b}"
        using cfg_edges_step [OF Suc.prems(2)] by (cases "y = b") auto
    qed
  qed
  with run show ?case by blast
qed

lemma stmt_inv_empty: "stmt_inv bl ([], Map.empty)"
  by (simp add: stmt_inv_def heap_closed_def preds_closed_def stmt_symmetric_def)

lemma unregistered_empty: "unregistered bl Map.empty = {..<length (blocks bl)}"
  by (auto simp: unregistered_def)

text \<open>The whole run: the final map has exactly the reachable blocks as its domain, and
  every node is complete.\<close>

lemma to_statements_spec:
  assumes closed: "cfg_closed bl True" and entry: "entry < length (blocks bl)"
  shows "\<exists>h m. to_statements bl entry = Inr (0, h) \<and> stmt_inv bl (h, m) \<and> m entry = Some 0
    \<and> (\<forall>n < length h. complete bl (h, m) n) \<and> dom m = reachable_blocks bl entry"
proof -
  have card: "card (unregistered bl Map.empty) \<le> Suc (length (blocks bl))"
    by (simp add: unregistered_empty)
  from to_statements_internal_spec [OF closed stmt_inv_empty entry _ card]
  obtain s' where "to_statements_internal (Suc (length (blocks bl))) bl entry ([], Map.empty) = Inr (0, s')"
    and "internal_post bl entry ([], Map.empty) s'"
    by auto
  then obtain h m where run: "to_statements_internal (Suc (length (blocks bl))) bl entry ([], Map.empty)
      = Inr (0, (h, m))"
    and p: "internal_post bl entry ([], Map.empty) (h, m)"
    by (cases s') auto
  from p have inv: "stmt_inv bl (h, m)" and me: "m entry = Some 0"
    and comp: "\<forall>n < length h. complete bl (h, m) n"
    and dom: "dom m \<subseteq> (cfg_edges bl)\<^sup>* `` {entry}"
    by (simp_all add: internal_post_def)
  have "y \<in> dom m" if "(entry, y) \<in> (cfg_edges bl)\<^sup>*" for y
    using that
  proof (induction rule: rtrancl_induct)
    case base
    then show ?case using me by auto
  next
    case (step y z)
    from step.IH obtain n where n: "m y = Some n" by auto
    with inv have nl: "n < length h" and k: "kind (h ! n) = StatementBlock y 0 0 False False"
      by (auto simp: stmt_inv_def)
    from comp nl obtain b where "kind (h ! n) = StatementBlock b 0 0 False False"
      "map Some (stmt_succ (h ! n)) = map m (succ (blocks bl ! b))"
      by (auto simp: complete_def)
    with k have eq: "map Some (stmt_succ (h ! n)) = map m (succ (blocks bl ! y))" by simp
    from step.hyps(2) have "z \<in> set (succ (blocks bl ! y))" by (simp add: cfg_edges_def)
    then have "m z \<in> set (map m (succ (blocks bl ! y)))" by simp
    then have "m z \<in> set (map Some (stmt_succ (h ! n)))" by (simp only: eq)
    then show ?case by auto
  qed
  with dom have "dom m = reachable_blocks bl entry"
    by (auto simp: reachable_blocks_def)
  moreover have "to_statements bl entry = Inr (0, h)"
    unfolding to_statements_def run by (simp add: bindE_def)
  ultimately show ?thesis using inv me comp by blast
qed

lemma stmt_inv_block_ids:
  assumes "stmt_inv bl (h, m)"
  shows "\<exists>bs. map kind h = map (\<lambda>b. StatementBlock b 0 0 False False) bs \<and> distinct bs
    \<and> set bs = dom m \<and> (\<forall>n < length h. m (bs ! n) = Some n)"
proof -
  from assms have 1: "\<forall>n < length h. \<exists>b. kind (h ! n) = StatementBlock b 0 0 False False \<and> m b = Some n"
    and 2: "\<forall>b n. m b = Some n \<longrightarrow> n < length h \<and> kind (h ! n) = StatementBlock b 0 0 False False"
    by (auto simp: stmt_inv_def)
  from 1 obtain f where f: "\<forall>n < length h. kind (h ! n) = StatementBlock (f n) 0 0 False False
      \<and> m (f n) = Some n"
    by metis
  let ?bs = "map f [0..<length h]"
  have "map kind h = map (\<lambda>b. StatementBlock b 0 0 False False) ?bs"
  proof (rule nth_equalityI)
    show "length (map kind h) = length (map (\<lambda>b. StatementBlock b 0 0 False False) ?bs)" by simp
    fix i assume "i < length (map kind h)"
    then have i: "i < length h" by simp
    with f have "kind (h ! i) = StatementBlock (f i) 0 0 False False" by blast
    with i show "map kind h ! i = map (\<lambda>b. StatementBlock b 0 0 False False) ?bs ! i" by simp
  qed
  moreover have "distinct ?bs"
  proof -
    have "inj_on f {0..<length h}"
    proof (rule inj_onI)
      fix i j assume "i \<in> {0..<length h}" "j \<in> {0..<length h}" "f i = f j"
      then have i: "i < length h" and j: "j < length h" and e: "f i = f j" by simp_all
      from f i have "m (f i) = Some i" by blast
      then have a: "m (f j) = Some i" by (simp only: e)
      from f j have "m (f j) = Some j" by blast
      then have "Some i = Some j" by (simp only: a)
      then show "i = j" by simp
    qed
    then show ?thesis by (simp add: distinct_map)
  qed
  moreover have "set ?bs = dom m"
  proof
    show "set ?bs \<subseteq> dom m" using f by auto
    show "dom m \<subseteq> set ?bs"
    proof
      fix b assume "b \<in> dom m"
      then obtain n where n: "m b = Some n" by auto
      with 2 have nl: "n < length h" and "kind (h ! n) = StatementBlock b 0 0 False False" by auto
      with f have "f n = b" by auto
      with nl show "b \<in> set ?bs" by auto
    qed
  qed
  moreover have "\<forall>n < length h. m (?bs ! n) = Some n" using f by simp
  ultimately show ?thesis by blast
qed

text \<open>
  Claim C8. For every block list whose successor ids lie inside it, cyclic or not, and
  every entry block, \<open>to_statements\<close> terminates (its fuel is not exhausted and it
  returns), and the heap it builds consists of exactly one freshly constructed
  \<open>StatementBlock\<close> per block reachable from the entry, the entry's node first.
\<close>

theorem to_statements_one_node_per_block:
  assumes "cfg_closed bl True" and "entry < length (blocks bl)"
  shows "\<exists>h bs. to_statements bl entry = Inr (0, h)
    \<and> map kind h = map (\<lambda>b. StatementBlock b 0 0 False False) bs
    \<and> distinct bs \<and> set bs = reachable_blocks bl entry \<and> bs ! 0 = entry"
proof -
  from to_statements_spec [OF assms] obtain h m where run: "to_statements bl entry = Inr (0, h)"
    and inv: "stmt_inv bl (h, m)" and me: "m entry = Some 0"
    and dom: "dom m = reachable_blocks bl entry"
    by blast
  from stmt_inv_block_ids [OF inv] obtain bs where
    bs: "map kind h = map (\<lambda>b. StatementBlock b 0 0 False False) bs" "distinct bs" "set bs = dom m"
      "\<forall>n < length h. m (bs ! n) = Some n"
    by blast
  from inv me have 0: "0 < length h" by (auto simp: stmt_inv_def)
  from bs(1) have len: "length bs = length h" by (metis length_map)
  have "bs ! 0 = entry"
  proof -
    from bs(4) 0 have a: "m (bs ! 0) = Some 0" by simp
    from bs(1) 0 len have k0: "kind (h ! 0) = StatementBlock (bs ! 0) 0 0 False False"
      by (metis nth_map)
    from inv me have "kind (h ! 0) = StatementBlock entry 0 0 False False"
      by (auto simp: stmt_inv_def)
    with k0 show ?thesis by simp
  qed
  with run bs dom show ?thesis by auto
qed

lemma to_statements_cfg_self:
  "to_statements cfg_self 0 = Inr (0,
     [\<lparr>stmt_pred = [0, 1], stmt_succ = [0, 1], kind = StatementBlock 0 0 0 False False, expired = False\<rparr>,
      \<lparr>stmt_pred = [0], stmt_succ = [0, 2], kind = StatementBlock 1 0 0 False False, expired = False\<rparr>,
      \<lparr>stmt_pred = [1], stmt_succ = [], kind = StatementBlock 2 0 0 False False, expired = False\<rparr>])"
  by (simp add: to_statements_def cfg_self_def mk_cfg_def mk_block_def bindE_def map_emplace_def
      new_StatementBlock_def add_successor_def)

theorem to_statements_one_node_per_block_witness:
  "cfg_closed cfg_self True \<and> (0::nat) < length (blocks cfg_self)
   \<and> (\<exists>h bs. to_statements cfg_self 0 = Inr (0, h)
      \<and> map kind h = map (\<lambda>b. StatementBlock b 0 0 False False) bs
      \<and> distinct bs \<and> set bs = reachable_blocks cfg_self 0 \<and> bs ! 0 = 0)"
proof -
  have c: "cfg_closed cfg_self True" "(0::nat) < length (blocks cfg_self)"
    by (simp_all add: cfg_closed_def cfg_self_def mk_cfg_def mk_block_def)
  from to_statements_one_node_per_block [OF c] c show ?thesis
    by simp
qed

lemma stmt_inv_symmetric: "stmt_inv bl (h, m) \<Longrightarrow> stmt_symmetric h \<and> heap_closed h"
  by (simp add: stmt_inv_def)

lemma count_list_pos_iff: "0 < count_list xs x \<longleftrightarrow> x \<in> set xs"
  by (induction xs) auto

lemma stmt_symmetric_mem:
  assumes "stmt_symmetric h" and "i < length h" and "j < length h"
  shows "i \<in> set (stmt_pred (h ! j)) \<longleftrightarrow> j \<in> set (stmt_succ (h ! i))"
proof -
  from assms have "count_list (stmt_pred (h ! j)) i = count_list (stmt_succ (h ! i)) j"
    by (simp add: stmt_symmetric_def)
  then show ?thesis by (metis count_list_pos_iff)
qed

text \<open>Every edge that leaves a registered block is a \<open>succ\<close> edge between the nodes.\<close>

lemma complete_edge:
  assumes inv: "stmt_inv bl (h, m)" and comp: "\<forall>n < length h. complete bl (h, m) n"
    and t: "m t = Some nt" and x: "x \<in> set (succ (blocks bl ! t))"
  shows "\<exists>nx. m x = Some nx \<and> nx < length h \<and> nx \<in> set (stmt_succ (h ! nt))
    \<and> nt \<in> set (stmt_pred (h ! nx))"
proof -
  from inv t have nt: "nt < length h" and k: "kind (h ! nt) = StatementBlock t 0 0 False False"
    by (auto simp: stmt_inv_def)
  from comp nt obtain b where "kind (h ! nt) = StatementBlock b 0 0 False False"
    "map Some (stmt_succ (h ! nt)) = map m (succ (blocks bl ! b))"
    by (auto simp: complete_def)
  with k have eq: "map Some (stmt_succ (h ! nt)) = map m (succ (blocks bl ! t))" by simp
  from x have "m x \<in> set (map m (succ (blocks bl ! t)))" by simp
  then have "m x \<in> set (map Some (stmt_succ (h ! nt)))" by (simp only: eq)
  then obtain nx where nx: "m x = Some nx" "nx \<in> set (stmt_succ (h ! nt))" by auto
  from inv nx(1) have nxl: "nx < length h" by (auto simp: stmt_inv_def)
  from stmt_symmetric_mem [of h nt nx] inv nt nxl nx(2)
  have "nt \<in> set (stmt_pred (h ! nx))" by (simp add: stmt_inv_def)
  with nx nxl show ?thesis by blast
qed

text \<open>Every \<open>succ\<close> edge between nodes comes from an edge between their blocks.\<close>

lemma complete_edge_back:
  assumes inv: "stmt_inv bl (h, m)" and comp: "\<forall>n < length h. complete bl (h, m) n"
    and i: "i < length h" and j: "j \<in> set (stmt_succ (h ! i))"
  shows "\<exists>a b. m a = Some i \<and> m b = Some j \<and> b \<in> set (succ (blocks bl ! a))"
proof -
  from comp i obtain a where a: "kind (h ! i) = StatementBlock a 0 0 False False"
    "map Some (stmt_succ (h ! i)) = map m (succ (blocks bl ! a))"
    by (auto simp: complete_def)
  from inv i obtain a' where "kind (h ! i) = StatementBlock a' 0 0 False False" "m a' = Some i"
    by (auto simp: stmt_inv_def)
  with a(1) have ma: "m a = Some i" by simp
  from j have "Some j \<in> set (map Some (stmt_succ (h ! i)))" by simp
  then have "Some j \<in> set (map m (succ (blocks bl ! a)))" by (simp only: a(2))
  then obtain b where "b \<in> set (succ (blocks bl ! a))" "m b = Some j" by auto
  with ma show ?thesis by blast
qed

lemma succ_edges_acyclic_iff:
  assumes inv: "stmt_inv bl (h, m)" and comp: "\<forall>n < length h. complete bl (h, m) n"
    and dom: "dom m = reachable_blocks bl entry"
  shows "acyclic (succ_edges h) \<longleftrightarrow> acyclic (reachable_edges bl entry)"
proof -
  let ?S = "succ_edges h" and ?R = "reachable_edges bl entry"
  have fwd: "\<exists>i j. m a = Some i \<and> m b = Some j \<and> (i, j) \<in> ?S\<^sup>+" if "(a, b) \<in> ?R\<^sup>+" for a b
    using that
  proof (induction rule: trancl_induct)
    case (base b)
    then have e: "b \<in> set (succ (blocks bl ! a))" and "a \<in> dom m"
      by (auto simp: reachable_edges_def cfg_edges_def dom)
    then obtain i where i: "m a = Some i" by auto
    from complete_edge [OF inv comp i e] obtain j where j: "m b = Some j" "j \<in> set (stmt_succ (h ! i))"
      by blast
    from inv i have "i < length h" by (auto simp: stmt_inv_def)
    with j have "(i, j) \<in> ?S" by (simp add: succ_edges_def)
    with i j show ?case by blast
  next
    case (step b c)
    then obtain i j where ij: "m a = Some i" "m b = Some j" "(i, j) \<in> ?S\<^sup>+" by blast
    from step.hyps(2) have e: "c \<in> set (succ (blocks bl ! b))"
      by (auto simp: reachable_edges_def cfg_edges_def)
    from complete_edge [OF inv comp ij(2) e] obtain k where k: "m c = Some k" "k \<in> set (stmt_succ (h ! j))"
      by blast
    from inv ij(2) have "j < length h" by (auto simp: stmt_inv_def)
    with k have "(j, k) \<in> ?S" by (simp add: succ_edges_def)
    with ij k show ?case by (blast intro: trancl_into_trancl)
  qed
  have edge: "\<exists>a b. m a = Some i \<and> m b = Some j \<and> (a, b) \<in> ?R" if "(i, j) \<in> ?S" for i j
  proof -
    from that have i: "i < length h" and j: "j \<in> set (stmt_succ (h ! i))"
      by (simp_all add: succ_edges_def)
    from complete_edge_back [OF inv comp i j] obtain a b where
      ab: "m a = Some i" "m b = Some j" "b \<in> set (succ (blocks bl ! a))"
      by blast
    from inv ab(1) have "a < length (blocks bl)" by (auto simp: stmt_inv_def)
    moreover from ab(1) dom have "a \<in> reachable_blocks bl entry" by auto
    ultimately have "(a, b) \<in> ?R" using ab(3) by (simp add: reachable_edges_def cfg_edges_def)
    with ab show ?thesis by blast
  qed
  have inj: "a = a'" if "m a = Some i" "m a' = Some i" for a a' i
  proof -
    from inv that(1) have "kind (h ! i) = StatementBlock a 0 0 False False"
      by (simp add: stmt_inv_def)
    moreover from inv that(2) have "kind (h ! i) = StatementBlock a' 0 0 False False"
      by (simp add: stmt_inv_def)
    ultimately show ?thesis by simp
  qed
  have bwd: "\<exists>a b. m a = Some i \<and> m b = Some j \<and> (a, b) \<in> ?R\<^sup>+" if "(i, j) \<in> ?S\<^sup>+" for i j
    using that
  proof (induction rule: trancl_induct)
    case (base j)
    from edge [OF base] show ?case by blast
  next
    case (step j k)
    then obtain a b where ab: "m a = Some i" "m b = Some j" "(a, b) \<in> ?R\<^sup>+" by blast
    from edge [OF step.hyps(2)] obtain b' c where bc: "m b' = Some j" "m c = Some k" "(b', c) \<in> ?R"
      by blast
    from inj [OF ab(2) bc(1)] bc have "(b, c) \<in> ?R" by simp
    with ab bc show ?case by (blast intro: trancl_into_trancl)
  qed
  show ?thesis
  proof
    assume ac: "acyclic ?S"
    show "acyclic ?R"
      unfolding acyclic_def
    proof (intro allI notI)
      fix a assume "(a, a) \<in> ?R\<^sup>+"
      from fwd [OF this] obtain i j where "m a = Some i" "m a = Some j" "(i, j) \<in> ?S\<^sup>+" by blast
      then have "(i, i) \<in> ?S\<^sup>+" by simp
      with ac show False by (simp add: acyclic_def)
    qed
  next
    assume ac: "acyclic ?R"
    show "acyclic ?S"
      unfolding acyclic_def
    proof (intro allI notI)
      fix i assume "(i, i) \<in> ?S\<^sup>+"
      from bwd [OF this] obtain a b where ab: "m a = Some i" "m b = Some i" "(a, b) \<in> ?R\<^sup>+" by blast
      from inj [OF ab(1,2)] ab(3) have "(a, a) \<in> ?R\<^sup>+" by simp
      with ac show False by (simp add: acyclic_def)
    qed
  qed
qed

text \<open>
  Claim C1, as the code has it. The owning \<open>succ\<close> edges of the statement graph are
  not acyclic in general: \<open>to_statements\<close> mirrors the reachable control-flow graph
  edge for edge. Every edge \<open>t \<rightarrow> x\<close> that leaves a reachable block, a back-edge
  included, is a \<open>succ\<close> entry of the node of \<open>t\<close> and a \<open>pred\<close> entry of the node of \<open>x\<close>;
  the \<open>pred\<close> lists mirror the \<open>succ\<close> lists; so the \<open>succ\<close> edges form a DAG exactly
  when the reachable control-flow graph has no cycle. Depth-first over \<open>succ\<close> edges
  from the entry statement returns all the same and calls its visitor on no node twice,
  because of its visited map.
\<close>

theorem to_statements_mirrors_cfg:
  assumes "cfg_closed bl True" and "entry < length (blocks bl)"
  shows "\<exists>h m. to_statements bl entry = Inr (0, h) \<and> m entry = Some 0
    \<and> dom m = reachable_blocks bl entry
    \<and> (\<forall>b n. m b = Some n \<longrightarrow> n < length h \<and> kind (h ! n) = StatementBlock b 0 0 False False
          \<and> map Some (stmt_succ (h ! n)) = map m (succ (blocks bl ! b)))
    \<and> (\<forall>t x. t \<in> reachable_blocks bl entry \<and> x \<in> set (succ (blocks bl ! t)) \<longrightarrow>
          (\<exists>nt nx. m t = Some nt \<and> m x = Some nx \<and> nx \<in> set (stmt_succ (h ! nt))
             \<and> nt \<in> set (stmt_pred (h ! nx))))
    \<and> stmt_symmetric h
    \<and> (acyclic (succ_edges h) \<longleftrightarrow> acyclic (reachable_edges bl entry))
    \<and> (\<forall>vis s. \<exists>s' log. depth_first_stmt h 0 True (record_calls vis) (s, []) = Inr (s', log)
          \<and> distinct (map fst log) \<and> stop_is_last log)"
proof -
  from to_statements_spec [OF assms] obtain h m where run: "to_statements bl entry = Inr (0, h)"
    and inv: "stmt_inv bl (h, m)" and me: "m entry = Some 0"
    and comp: "\<forall>n < length h. complete bl (h, m) n"
    and dom: "dom m = reachable_blocks bl entry"
    by blast
  have 1: "n < length h \<and> kind (h ! n) = StatementBlock b 0 0 False False
      \<and> map Some (stmt_succ (h ! n)) = map m (succ (blocks bl ! b))" if "m b = Some n" for b n
  proof -
    from inv that have n: "n < length h" and k: "kind (h ! n) = StatementBlock b 0 0 False False"
      by (auto simp: stmt_inv_def)
    from comp n obtain b' where "kind (h ! n) = StatementBlock b' 0 0 False False"
      "map Some (stmt_succ (h ! n)) = map m (succ (blocks bl ! b'))"
      by (auto simp: complete_def)
    with k n show ?thesis by simp
  qed
  have 2: "\<exists>nt nx. m t = Some nt \<and> m x = Some nx \<and> nx \<in> set (stmt_succ (h ! nt))
      \<and> nt \<in> set (stmt_pred (h ! nx))"
    if "t \<in> reachable_blocks bl entry \<and> x \<in> set (succ (blocks bl ! t))" for t x
  proof -
    from that dom obtain nt where nt: "m t = Some nt" by auto
    from complete_edge [OF inv comp nt] that show ?thesis using nt by blast
  qed
  from inv me have 0: "0 < length h" by (auto simp: stmt_inv_def)
  have 3: "\<exists>s' log. depth_first_stmt h 0 True (record_calls vis) (s, []) = Inr (s', log)
      \<and> distinct (map fst log) \<and> stop_is_last log" for vis :: "'a visitor" and s
  proof -
    from inv have "heap_closed h" by (simp add: stmt_inv_def)
    from depth_first_stmt_returns [OF this 0, of "record_calls vis" "(s, [])"]
    obtain s' log where r: "depth_first_stmt h 0 True (record_calls vis) (s, []) = Inr (s', log)"
      by (metis surj_pair)
    from depth_first_stmt_log [OF r] r show ?thesis by blast
  qed
  from inv have 4: "stmt_symmetric h" by (simp add: stmt_inv_def)
  note 5 = succ_edges_acyclic_iff [OF inv comp dom]
  show ?thesis
    using run me dom 1 2 3 4 5 by blast
qed

lemma to_statements_cfg_cycle: "to_statements cfg_cycle 0 = Inr (0, heap_cycle)"
  by (simp add: to_statements_def cfg_cycle_def heap_cycle_def mk_cfg_def mk_block_def bindE_def
      map_emplace_def new_StatementBlock_def add_successor_def)

theorem to_statements_mirrors_cfg_witness:
  "cfg_closed cfg_cycle True \<and> (0::nat) < length (blocks cfg_cycle)
   \<and> to_statements cfg_cycle 0 = Inr (0, heap_cycle)
   \<and> (\<exists>m. m 0 = Some 0 \<and> dom m = reachable_blocks cfg_cycle 0
        \<and> (\<forall>t x. t \<in> reachable_blocks cfg_cycle 0 \<and> x \<in> set (succ (blocks cfg_cycle ! t)) \<longrightarrow>
          (\<exists>nt nx. m t = Some nt \<and> m x = Some nx \<and> nx \<in> set (stmt_succ (heap_cycle ! nt))
             \<and> nt \<in> set (stmt_pred (heap_cycle ! nx)))))
   \<and> (acyclic (succ_edges heap_cycle) \<longleftrightarrow> acyclic (reachable_edges cfg_cycle 0))"
proof -
  have c: "cfg_closed cfg_cycle True" "(0::nat) < length (blocks cfg_cycle)"
    by (simp_all add: cfg_closed_def cfg_cycle_def mk_cfg_def mk_block_def)
  from to_statements_mirrors_cfg [OF c, where ?'a = unit] c show ?thesis
    unfolding to_statements_cfg_cycle by auto
qed

text \<open>
  The claim as stated fails on two blocks that jump to each other: the back-edge from
  block 1 to block 0 is a \<open>succ\<close> edge of the statement graph, which has a cycle.
\<close>

theorem to_statements_succ_cycle_counterexample:
  "to_statements cfg_cycle 0 = Inr (0, heap_cycle)
   \<and> (1, 0) \<in> cfg_edges cfg_cycle \<and> (1, 0) \<in> succ_edges heap_cycle
   \<and> (0, 1) \<in> succ_edges heap_cycle \<and> \<not> acyclic (succ_edges heap_cycle)"
proof -
  have e: "(1, 0) \<in> succ_edges heap_cycle" "(0, 1) \<in> succ_edges heap_cycle"
    by (simp_all add: succ_edges_def heap_cycle_def)
  then have "(0, 0) \<in> (succ_edges heap_cycle)\<^sup>+" by (meson trancl.simps)
  then have "\<not> acyclic (succ_edges heap_cycle)" by (auto simp: acyclic_def)
  moreover have "(1, 0) \<in> cfg_edges cfg_cycle"
    by (simp add: cfg_edges_def cfg_cycle_def mk_cfg_def mk_block_def)
  ultimately show ?thesis using e to_statements_cfg_cycle by simp
qed

subsection \<open>Destroying nodes\<close>

lemma only_expiry_refl: "only_expiry h h"
  by (simp add: only_expiry_def)

lemma only_expiry_trans: "only_expiry h h1 \<Longrightarrow> only_expiry h1 h2 \<Longrightarrow> only_expiry h h2"
  by (simp add: only_expiry_def)

lemma nth_update_field:
  assumes "\<And>x. f (g x) = f x"
  shows "f ((h[i := g (h ! i)]) ! n) = f (h ! n)"
proof (cases "i < length h")
  case True
  then show ?thesis using assms by (simp add: nth_list_update)
next
  case False
  then show ?thesis by (simp add: list_update_beyond)
qed

lemma destroy_fields:
  "stmt_pred (destroy h n ! m) = stmt_pred (h ! m)"
  "stmt_succ (destroy h n ! m) = stmt_succ (h ! m)"
  "kind (destroy h n ! m) = kind (h ! m)"
  unfolding destroy_def
  using nth_update_field [of stmt_pred "\<lambda>x. x\<lparr>expired := True\<rparr>" h n m]
    nth_update_field [of stmt_succ "\<lambda>x. x\<lparr>expired := True\<rparr>" h n m]
    nth_update_field [of kind "\<lambda>x. x\<lparr>expired := True\<rparr>" h n m]
  by simp_all

lemma destroy_expired:
  "m < length h \<Longrightarrow> expired (destroy h n ! m) \<longleftrightarrow> m = n \<or> expired (h ! m)"
  by (cases "n < length h") (auto simp: destroy_def nth_list_update list_update_beyond)

lemma length_destroy: "length (destroy h n) = length h"
  by (simp add: destroy_def)

lemma only_expiry_destroy: "only_expiry h (destroy h n)"
  by (simp add: only_expiry_def destroy_fields destroy_expired length_destroy)

lemma only_expiry_length: "only_expiry h h' \<Longrightarrow> length h' = length h"
  by (simp add: only_expiry_def)

lemma only_expiry_owned: "only_expiry h h' \<Longrightarrow> owned (h' ! n) = owned (h ! n)"
  by (simp add: only_expiry_def owned_def)

lemma only_expiry_alive: "only_expiry h h' \<Longrightarrow> alive h' \<subseteq> alive h"
  by (auto simp: only_expiry_def alive_def)

lemma finite_alive: "finite (alive h)"
  by (simp add: alive_def)

lemma card_alive_le: "card (alive h) \<le> length h"
proof -
  have "alive h \<subseteq> {..<length h}" by (auto simp: alive_def)
  then have "card (alive h) \<le> card {..<length h}" by (intro card_mono) simp_all
  then show ?thesis by simp
qed

lemma alive_destroy:
  assumes "n < length h" and "\<not> expired (h ! n)"
  shows "card (alive (destroy h n)) < card (alive h)"
proof -
  have "alive (destroy h n) \<subseteq> alive h - {n}"
    using assms(1) by (auto simp: alive_def destroy_def nth_list_update split: if_splits)
  moreover have "n \<in> alive h" using assms by (simp add: alive_def)
  ultimately have "alive (destroy h n) \<subset> alive h" by blast
  then show ?thesis by (intro psubset_card_mono finite_alive)
qed

text \<open>Dropping a pointer changes nothing but which nodes have been destroyed.\<close>

lemma release_all_only_expiry:
  assumes rec: "\<And>holders h n h'. rec holders h n = Inr h' \<Longrightarrow> only_expiry h h'"
  shows "release_all rec holders h xs = Inr h' \<Longrightarrow> only_expiry h h'"
proof (induction xs arbitrary: h)
  case Nil
  then show ?case by (simp add: only_expiry_refl)
next
  case (Cons x xs)
  from Cons.prems obtain h1 where 1: "rec (xs @ holders) h x = Inr h1"
    and 2: "release_all rec holders h1 xs = Inr h'"
    by (auto simp: bindE_Inr_iff)
  from rec [OF 1] Cons.IH [OF 2] show ?case by (rule only_expiry_trans)
qed

lemma release_only_expiry:
  "release k holders h n = Inr h' \<Longrightarrow> only_expiry h h'"
proof (induction k arbitrary: holders h n h')
  case 0
  then show ?case by simp
next
  case (Suc k)
  show ?case
  proof (cases "length h \<le> n \<or> expired (h ! n) \<or> has_owner h holders n")
    case True
    with Suc.prems show ?thesis by (simp add: only_expiry_refl)
  next
    case False
    with Suc.prems have "release_all (release k) holders (destroy h n) (owned (h ! n)) = Inr h'"
      by simp
    then have "only_expiry (destroy h n) h'"
      by (rule release_all_only_expiry [rotated]) (rule Suc.IH)
    with only_expiry_destroy show ?thesis by (rule only_expiry_trans)
  qed
qed

text \<open>The fuel is enough: dropping a pointer returns.\<close>

lemma release_all_returns:
  assumes rec: "\<And>holders h n. card (alive h) < k \<Longrightarrow> \<exists>h'. rec holders h n = Inr h' \<and> only_expiry h h'"
  shows "card (alive h) < k \<Longrightarrow> \<exists>h'. release_all rec holders h xs = Inr h'"
proof (induction xs arbitrary: h)
  case Nil
  then show ?case by simp
next
  case (Cons x xs)
  from rec [OF Cons.prems] obtain h1 where 1: "rec (xs @ holders) h x = Inr h1"
    and e: "only_expiry h h1"
    by blast
  from only_expiry_alive [OF e] have "card (alive h1) \<le> card (alive h)"
    by (intro card_mono finite_alive)
  with Cons.prems have "card (alive h1) < k" by simp
  from Cons.IH [OF this] 1 show ?case by (simp add: bindE_def)
qed

lemma release_returns:
  "card (alive h) < k \<Longrightarrow> \<exists>h'. release k holders h n = Inr h'"
proof (induction k arbitrary: holders h n)
  case 0
  then show ?case by simp
next
  case (Suc k)
  show ?case
  proof (cases "length h \<le> n \<or> expired (h ! n) \<or> has_owner h holders n")
    case True
    then show ?thesis by simp
  next
    case False
    then have "card (alive (destroy h n)) < card (alive h)" by (intro alive_destroy) simp_all
    with Suc.prems have c: "card (alive (destroy h n)) < k" by simp
    have "\<exists>h'. release k holders g x = Inr h' \<and> only_expiry g h'" if "card (alive g) < k"
      for holders g x
      using Suc.IH [OF that, of holders x] release_only_expiry by blast
    from release_all_returns [of k "release k", OF this c] False show ?thesis by simp
  qed
qed

lemma drop_pointer_returns: "\<exists>h'. drop_pointer holders h n = Inr h'"
  unfolding drop_pointer_def using card_alive_le [of h] by (intro release_returns) simp

lemma drop_pointer_only_expiry: "drop_pointer holders h n = Inr h' \<Longrightarrow> only_expiry h h'"
  unfolding drop_pointer_def by (rule release_only_expiry)

lemma drop_pointer_kept:
  "length h \<le> n \<or> expired (h ! n) \<or> has_owner h holders n \<Longrightarrow> drop_pointer holders h n = Inr h"
  by (simp add: drop_pointer_def)

lemma drop_pointer_destroys:
  assumes "drop_pointer holders h n = Inr h'" and "n < length h" and "\<not> has_owner h holders n"
  shows "expired (h' ! n)"
proof (cases "expired (h ! n)")
  case True
  with assms(1,2) drop_pointer_only_expiry [OF assms(1)] show ?thesis
    by (simp add: only_expiry_def)
next
  case False
  with assms have "release_all (release (length h)) holders (destroy h n) (owned (h ! n)) = Inr h'"
    by (simp add: drop_pointer_def)
  then have "only_expiry (destroy h n) h'"
    by (rule release_all_only_expiry [rotated]) (rule release_only_expiry)
  moreover have "expired (destroy h n ! n)" using assms(2) by (simp add: destroy_def)
  ultimately show ?thesis using assms(2) by (simp add: only_expiry_def destroy_def)
qed

lemma drop_locals_returns: "\<exists>h'. drop_locals holders h locals = Inr h'"
proof (induction locals arbitrary: h)
  case Nil
  then show ?case by simp
next
  case (Cons p locals)
  show ?case
  proof (cases p)
    case None
    then show ?thesis using Cons.IH by simp
  next
    case (Some n)
    from drop_pointer_returns obtain h1 where "drop_pointer (pointees locals @ holders) h n = Inr h1"
      by blast
    with Some Cons.IH [of h1] show ?thesis by (simp add: bindE_def)
  qed
qed

lemma drop_locals_only_expiry: "drop_locals holders h locals = Inr h' \<Longrightarrow> only_expiry h h'"
proof (induction locals arbitrary: h)
  case Nil
  then show ?case by (simp add: only_expiry_refl)
next
  case (Cons p locals)
  show ?case
  proof (cases p)
    case None
    with Cons show ?thesis by simp
  next
    case (Some n)
    with Cons.prems obtain h1 where 1: "drop_pointer (pointees locals @ holders) h n = Inr h1"
      and 2: "drop_locals holders h1 locals = Inr h'"
      by (auto simp: bindE_Inr_iff)
    from drop_pointer_only_expiry [OF 1] Cons.IH [OF 2] show ?thesis by (rule only_expiry_trans)
  qed
qed

text \<open>A node that a variable holds is not destroyed.\<close>

lemma release_all_holder:
  assumes rec: "\<And>holders h n h'. rec holders h n = Inr h' \<Longrightarrow> x \<in> set holders \<Longrightarrow>
      expired (h' ! x) = expired (h ! x)"
  shows "release_all rec holders h xs = Inr h' \<Longrightarrow> x \<in> set holders \<Longrightarrow>
    expired (h' ! x) = expired (h ! x)"
proof (induction xs arbitrary: h)
  case Nil
  then show ?case by simp
next
  case (Cons y xs)
  from Cons.prems obtain h1 where 1: "rec (xs @ holders) h y = Inr h1"
    and 2: "release_all rec holders h1 xs = Inr h'"
    by (auto simp: bindE_Inr_iff)
  from rec [OF 1] Cons.prems(2) have "expired (h1 ! x) = expired (h ! x)" by simp
  with Cons.IH [OF 2 Cons.prems(2)] show ?case by simp
qed

lemma release_holder:
  "release k holders h n = Inr h' \<Longrightarrow> x \<in> set holders \<Longrightarrow> expired (h' ! x) = expired (h ! x)"
proof (induction k arbitrary: holders h n h')
  case 0
  then show ?case by simp
next
  case (Suc k)
  show ?case
  proof (cases "length h \<le> n \<or> expired (h ! n) \<or> has_owner h holders n")
    case True
    with Suc.prems show ?thesis by simp
  next
    case False
    with Suc.prems have r: "release_all (release k) holders (destroy h n) (owned (h ! n)) = Inr h'"
      by simp
    from False Suc.prems(2) have "x \<noteq> n" by (auto simp: has_owner_def)
    then have "expired (destroy h n ! x) = expired (h ! x)" by (simp add: destroy_def)
    moreover have "expired (h' ! x) = expired (destroy h n ! x)"
      using r Suc.prems(2) by (rule release_all_holder [rotated]) (rule Suc.IH)
    ultimately show ?thesis by simp
  qed
qed

lemma drop_locals_holder:
  "drop_locals holders h locals = Inr h' \<Longrightarrow> x \<in> set holders \<Longrightarrow>
   expired (h' ! x) = expired (h ! x)"
proof (induction locals arbitrary: h)
  case Nil
  then show ?case by simp
next
  case (Cons p locals)
  show ?case
  proof (cases p)
    case None
    with Cons show ?thesis by simp
  next
    case (Some n)
    with Cons.prems obtain h1 where 1: "drop_pointer (pointees locals @ holders) h n = Inr h1"
      and 2: "drop_locals holders h1 locals = Inr h'"
      by (auto simp: bindE_Inr_iff)
    from Cons.prems(2) have "x \<in> set (pointees locals @ holders)" by simp
    with 1 have "expired (h1 ! x) = expired (h ! x)"
      unfolding drop_pointer_def by (rule release_holder)
    with Cons.IH [OF 2 Cons.prems(2)] show ?thesis by simp
  qed
qed

text \<open>Dropping a pointer leaves no pointer dangling.\<close>

lemma no_danglingD:
  "no_dangling h \<Longrightarrow> n < length h \<Longrightarrow> \<not> expired (h ! n) \<Longrightarrow> x \<in> set (owned (h ! n)) \<Longrightarrow>
   x < length h \<and> \<not> expired (h ! x)"
  unfolding no_dangling_def by blast

lemma has_ownerI:
  "m < length h \<Longrightarrow> \<not> expired (h ! m) \<Longrightarrow> n \<in> set (owned (h ! m)) \<Longrightarrow> has_owner h holders n"
  unfolding has_owner_def list_ex_iff using nth_mem [of m h] by blast

lemma no_dangling_destroy:
  assumes "no_dangling h" and "\<not> has_owner h holders n"
  shows "no_dangling (destroy h n)"
  unfolding no_dangling_def
proof (intro allI impI ballI)
  fix m x
  assume m: "m < length (destroy h n)" and live: "\<not> expired (destroy h n ! m)"
    and x: "x \<in> set (owned (destroy h n ! m))"
  from m have ml: "m < length h" by (simp add: length_destroy)
  from live ml have lm: "\<not> expired (h ! m)" by (simp add: destroy_expired)
  from x have xo: "x \<in> set (owned (h ! m))"
    by (simp add: only_expiry_owned [OF only_expiry_destroy])
  from no_danglingD [OF assms(1) ml lm xo] have xl: "x < length h" and lx: "\<not> expired (h ! x)"
    by simp_all
  have "x \<noteq> n"
  proof
    assume "x = n"
    with has_ownerI [OF ml lm xo, of holders] assms(2) show False by simp
  qed
  with xl lx show "x < length (destroy h n) \<and> \<not> expired (destroy h n ! x)"
    by (simp add: length_destroy destroy_expired)
qed

lemma release_all_no_dangling:
  assumes rec: "\<And>holders h n h'. rec holders h n = Inr h' \<Longrightarrow> no_dangling h \<Longrightarrow> no_dangling h'"
  shows "release_all rec holders h xs = Inr h' \<Longrightarrow> no_dangling h \<Longrightarrow> no_dangling h'"
proof (induction xs arbitrary: h)
  case Nil
  then show ?case by simp
next
  case (Cons y xs)
  from Cons.prems obtain h1 where 1: "rec (xs @ holders) h y = Inr h1"
    and 2: "release_all rec holders h1 xs = Inr h'"
    by (auto simp: bindE_Inr_iff)
  from rec [OF 1 Cons.prems(2)] have "no_dangling h1" .
  with 2 show ?case by (rule Cons.IH)
qed

lemma release_no_dangling:
  "release k holders h n = Inr h' \<Longrightarrow> no_dangling h \<Longrightarrow> no_dangling h'"
proof (induction k arbitrary: holders h n h')
  case 0
  then show ?case by simp
next
  case (Suc k)
  show ?case
  proof (cases "length h \<le> n \<or> expired (h ! n) \<or> has_owner h holders n")
    case True
    with Suc.prems show ?thesis by simp
  next
    case False
    with Suc.prems have r: "release_all (release k) holders (destroy h n) (owned (h ! n)) = Inr h'"
      by simp
    from False have "\<not> has_owner h holders n" by simp
    with Suc.prems(2) have "no_dangling (destroy h n)" by (rule no_dangling_destroy)
    with r show ?thesis by (rule release_all_no_dangling [rotated]) (rule Suc.IH)
  qed
qed

lemma drop_locals_no_dangling:
  "drop_locals holders h locals = Inr h' \<Longrightarrow> no_dangling h \<Longrightarrow> no_dangling h'"
proof (induction locals arbitrary: h)
  case Nil
  then show ?case by simp
next
  case (Cons p locals)
  show ?case
  proof (cases p)
    case None
    with Cons show ?thesis by simp
  next
    case (Some n)
    with Cons.prems obtain h1 where 1: "drop_pointer (pointees locals @ holders) h n = Inr h1"
      and 2: "drop_locals holders h1 locals = Inr h'"
      by (auto simp: bindE_Inr_iff)
    from 1 Cons.prems(2) have "no_dangling h1"
      unfolding drop_pointer_def by (rule release_no_dangling)
    with 2 show ?thesis by (rule Cons.IH)
  qed
qed

subsection \<open>Folding a loop into a while node\<close>

lemma same_shape_refl: "same_shape h h"
  by (simp add: same_shape_def)

lemma same_shape_trans: "same_shape h h1 \<Longrightarrow> same_shape h1 h2 \<Longrightarrow> same_shape h h2"
  by (simp add: same_shape_def)

lemma same_shape_update_pred:
  "same_shape h (h[i := (h ! i)\<lparr>stmt_pred := ps\<rparr>])"
  unfolding same_shape_def
  using nth_update_field [of kind "\<lambda>x. x\<lparr>stmt_pred := ps\<rparr>" h i]
    nth_update_field [of "\<lambda>x. length (stmt_succ x)" "\<lambda>x. x\<lparr>stmt_pred := ps\<rparr>" h i]
    nth_update_field [of expired "\<lambda>x. x\<lparr>stmt_pred := ps\<rparr>" h i]
  by simp

lemma same_shape_update_succ:
  "length ss = length (stmt_succ (h ! i)) \<Longrightarrow> same_shape h (h[i := (h ! i)\<lparr>stmt_succ := ss\<rparr>])"
  unfolding same_shape_def
  using nth_update_field [of kind "\<lambda>x. x\<lparr>stmt_succ := ss\<rparr>" h i]
    nth_update_field [of expired "\<lambda>x. x\<lparr>stmt_succ := ss\<rparr>" h i]
  by (cases "i < length h") (auto simp: nth_list_update list_update_beyond)


lemma lock_Some_iff: "lock h w = Some p \<longleftrightarrow> p = w \<and> w < length h \<and> \<not> expired (h ! w)"
  by (auto simp: lock_def)

lemma lock_cases: "lock h w = None \<or> lock h w = Some w"
  by (simp add: lock_def)

text \<open>One round of the loop of \<open>unlink_preds\<close> on a predecessor that is dereferenced.\<close>

lemma unlink_preds_loop_step:
  assumes "unlink_preds_loop h this new_succ except i (w # rest) = Inr h'"
    and "lock h w \<noteq> except"
  shows "lock h w = Some w" and "w < length h" and "new_succ \<noteq> this"
    and "unlink_preds_loop
          (let h1 = h[w := (h ! w)\<lparr>stmt_succ := std_replace (stmt_succ (h ! w)) this new_succ\<rparr>];
               h2 = h1[new_succ := (h1 ! new_succ)\<lparr>stmt_pred := stmt_pred (h1 ! new_succ) @ [w]\<rparr>]
           in h2[this := (h2 ! this)\<lparr>stmt_pred := erase_at (stmt_pred (h2 ! this)) i\<rparr>])
          this new_succ except i rest = Inr h'"
proof -
  from assms lock_cases [of h w] show l: "lock h w = Some w" by auto
  then show "w < length h" by (simp add: lock_Some_iff)
  from assms l show "new_succ \<noteq> this" by (auto split: if_splits)
  with assms l show "unlink_preds_loop
          (let h1 = h[w := (h ! w)\<lparr>stmt_succ := std_replace (stmt_succ (h ! w)) this new_succ\<rparr>];
               h2 = h1[new_succ := (h1 ! new_succ)\<lparr>stmt_pred := stmt_pred (h1 ! new_succ) @ [w]\<rparr>]
           in h2[this := (h2 ! this)\<lparr>stmt_pred := erase_at (stmt_pred (h2 ! this)) i\<rparr>])
          this new_succ except i rest = Inr h'"
    by (simp add: Let_def)
qed

lemma unlink_preds_loop_shape:
  "unlink_preds_loop h this new_succ except i rest = Inr h' \<Longrightarrow> same_shape h h'"
proof (induction rest arbitrary: h i)
  case Nil
  then show ?case by (simp add: same_shape_refl)
next
  case (Cons w rest)
  show ?case
  proof (cases "lock h w = except")
    case True
    with Cons show ?thesis by simp
  next
    case False
    let ?h1 = "h[w := (h ! w)\<lparr>stmt_succ := std_replace (stmt_succ (h ! w)) this new_succ\<rparr>]"
    let ?h2 = "?h1[new_succ := (?h1 ! new_succ)\<lparr>stmt_pred := stmt_pred (?h1 ! new_succ) @ [w]\<rparr>]"
    let ?h3 = "?h2[this := (?h2 ! this)\<lparr>stmt_pred := erase_at (stmt_pred (?h2 ! this)) i\<rparr>]"
    from unlink_preds_loop_step(4) [OF Cons.prems False]
    have r: "unlink_preds_loop ?h3 this new_succ except i rest = Inr h'"
      by (simp add: Let_def)
    have "same_shape h ?h1" by (rule same_shape_update_succ) (simp add: std_replace_def)
    moreover have "same_shape ?h1 ?h2" by (rule same_shape_update_pred)
    moreover have "same_shape ?h2 ?h3" by (rule same_shape_update_pred)
    ultimately have "same_shape h ?h3" by (blast intro: same_shape_trans)
    then show ?thesis using Cons.IH [OF r] by (rule same_shape_trans)
  qed
qed

lemma unlink_preds_shape:
  "unlink_preds h this new_succ except = Inr h' \<Longrightarrow> same_shape h h'"
  by (auto simp: unlink_preds_def split: if_splits dest: unlink_preds_loop_shape)

lemma replace_successor_loop_shape:
  "replace_successor_loop h this old_node new_node i rest = Inr h' \<Longrightarrow> same_shape h h'"
proof (induction rest arbitrary: h i)
  case Nil
  then show ?case by (simp add: same_shape_refl)
next
  case (Cons x rest)
  show ?case
  proof (cases "x = old_node")
    case False
    with Cons show ?thesis by simp
  next
    case True
    let ?h1 = "h[this := (h ! this)\<lparr>stmt_succ := (stmt_succ (h ! this))[i := new_node]\<rparr>]"
    let ?h2 = "?h1[new_node := (?h1 ! new_node)\<lparr>stmt_pred := stmt_pred (?h1 ! new_node) @ [this]\<rparr>]"
    from Cons.prems True obtain ps where
      r: "replace_successor_loop (?h2[old_node := (?h2 ! old_node)\<lparr>stmt_pred := ps\<rparr>])
          this old_node new_node (Suc i) rest = Inr h'"
      by (auto simp: Let_def split: option.splits)
    have "same_shape h ?h1" by (rule same_shape_update_succ) simp
    moreover have "same_shape ?h1 ?h2" by (rule same_shape_update_pred)
    moreover have "same_shape ?h2 (?h2[old_node := (?h2 ! old_node)\<lparr>stmt_pred := ps\<rparr>])"
      by (rule same_shape_update_pred)
    ultimately have "same_shape h (?h2[old_node := (?h2 ! old_node)\<lparr>stmt_pred := ps\<rparr>])"
      by (blast intro: same_shape_trans)
    then show ?thesis using Cons.IH [OF r] by (rule same_shape_trans)
  qed
qed

lemma replace_successor_shape:
  "replace_successor h this old_node new_node = Inr h' \<Longrightarrow> same_shape h h'"
  by (auto simp: replace_successor_def split: if_splits dest: replace_successor_loop_shape)

text \<open>Neither loop can fail an \<open>Expects\<close>.\<close>

lemma unlink_preds_loop_no_expects:
  "unlink_preds_loop h this new_succ except i rest \<noteq> Inl ExpectsFailed"
  by (induction rest arbitrary: h i) (auto simp: Let_def split: option.splits)

lemma replace_successor_loop_no_expects:
  "replace_successor_loop h this old_node new_node i rest \<noteq> Inl ExpectsFailed"
  by (induction rest arbitrary: h i) (auto simp: Let_def split: option.splits)

lemma increment_block_until_result:
  assumes "increment_block_until h node = Inr h'"
  shows "length h' = length h"
    and "\<And>n. stmt_succ (h' ! n) = stmt_succ (h ! n)"
    and "\<And>n. stmt_pred (h' ! n) = stmt_pred (h ! n)"
    and "\<And>n. n \<noteq> node \<Longrightarrow> kind (h' ! n) = kind (h ! n)"
    and "\<exists>b f u gb gc. kind (h ! node) = StatementBlock b f u gb gc
           \<and> kind (h' ! node) = StatementBlock b f (u + 1) gb gc"
    and "\<And>n. expired (h' ! n) = expired (h ! n)"
  using assms
  by (auto simp: increment_block_until_def nth_list_update split: if_splits StatementKind.splits)

text \<open>The temporary of the break node: nothing changes but that the node may be destroyed.\<close>

lemma drop_temporary_only_expiry: "only_expiry h (drop_temporary h n)"
  by (simp add: drop_temporary_def only_expiry_refl only_expiry_destroy)

lemma drop_temporary_expired:
  "m < length h \<Longrightarrow>
   expired (drop_temporary h n ! m) \<longleftrightarrow> expired (h ! m) \<or> m = n \<and> \<not> has_owner h [] n"
  by (auto simp: drop_temporary_def destroy_expired)

text \<open>
  The two assignments at the head of \<open>setup_while\<close> return. They leave the heap as the
  plain update of the two fields does, but that nodes may have been destroyed; on a
  while node fresh from \<^verbatim>\<open>make_shared\<close> none is.
\<close>

lemma only_expiry_update_kind:
  assumes "only_expiry g g'"
  shows "only_expiry (g[i := (g ! i)\<lparr>kind := k\<rparr>]) (g'[i := (g' ! i)\<lparr>kind := k\<rparr>])"
proof -
  from assms have len: "length g' = length g" by (simp add: only_expiry_def)
  show ?thesis
  proof (cases "i < length g")
    case True
    with assms len show ?thesis
      by (auto simp: only_expiry_def nth_list_update)
  next
    case False
    with assms len show ?thesis by (simp add: list_update_beyond)
  qed
qed

lemma assign_loop_fields:
  assumes "this < length h" and "statement_type (kind (h ! this)) = TypeWhile"
  shows "\<exists>ha h0. assign_loop_head holders h this a = Inr ha
    \<and> assign_loop_tail holders ha this b = Inr h0
    \<and> only_expiry (h[this := (h ! this)\<lparr>kind := StatementWhile (Some a) (Some b)\<rparr>]) h0
    \<and> (kind (h ! this) = StatementWhile None None \<longrightarrow>
         h0 = h[this := (h ! this)\<lparr>kind := StatementWhile (Some a) (Some b)\<rparr>])"
proof -
  from assms(2) obtain x y where k: "kind (h ! this) = StatementWhile x y"
    by (cases "kind (h ! this)") simp_all
  let ?h1 = "h[this := (h ! this)\<lparr>kind := StatementWhile (Some a) y\<rparr>]"
  have "\<exists>ha. assign_loop_head holders h this a = Inr ha \<and> only_expiry ?h1 ha
      \<and> (x = None \<longrightarrow> ha = ?h1)"
  proof (cases x)
    case None
    with k show ?thesis by (simp add: assign_loop_head_def only_expiry_refl)
  next
    case (Some old)
    from drop_pointer_returns obtain ha where d: "drop_pointer holders ?h1 old = Inr ha" by blast
    with k Some drop_pointer_only_expiry [OF d] show ?thesis
      by (simp add: assign_loop_head_def)
  qed
  then obtain ha where ha: "assign_loop_head holders h this a = Inr ha"
    and e1: "only_expiry ?h1 ha" and f1: "x = None \<longrightarrow> ha = ?h1"
    by blast
  from e1 assms(1) have ka: "kind (ha ! this) = StatementWhile (Some a) y"
    by (simp add: only_expiry_def)
  let ?h2 = "ha[this := (ha ! this)\<lparr>kind := StatementWhile (Some a) (Some b)\<rparr>]"
  let ?g = "h[this := (h ! this)\<lparr>kind := StatementWhile (Some a) (Some b)\<rparr>]"
  have g: "?h1[this := (?h1 ! this)\<lparr>kind := StatementWhile (Some a) (Some b)\<rparr>] = ?g"
    using assms(1) by simp
  from only_expiry_update_kind [OF e1, of this "StatementWhile (Some a) (Some b)"]
  have e2: "only_expiry ?g ?h2" by (simp only: g)
  have "\<exists>h0. assign_loop_tail holders ha this b = Inr h0 \<and> only_expiry ?h2 h0
      \<and> (y = None \<longrightarrow> h0 = ?h2)"
  proof (cases y)
    case None
    with ka show ?thesis by (simp add: assign_loop_tail_def only_expiry_refl)
  next
    case (Some old)
    from drop_pointer_returns obtain h0 where d: "drop_pointer holders ?h2 old = Inr h0" by blast
    with ka Some drop_pointer_only_expiry [OF d] show ?thesis
      by (simp add: assign_loop_tail_def)
  qed
  then obtain h0 where h0: "assign_loop_tail holders ha this b = Inr h0"
    and e3: "only_expiry ?h2 h0" and f3: "y = None \<longrightarrow> h0 = ?h2"
    by blast
  from e2 e3 have "only_expiry ?g h0" by (rule only_expiry_trans)
  moreover have "h0 = ?g" if "kind (h ! this) = StatementWhile None None"
  proof -
    from that k have "x = None" "y = None" by simp_all
    with f1 f3 have "h0 = ?h1[this := (?h1 ! this)\<lparr>kind := StatementWhile (Some a) (Some b)\<rparr>]"
      by simp
    then show ?thesis by (simp only: g)
  qed
  ultimately show ?thesis using ha h0 by blast
qed

lemma bindE_Inr: "bindE (Inr x) f = f x"
  by (simp add: bindE_def)

text \<open>The steps of \<open>setup_while\<close>, named.\<close>

lemma setup_while_steps:
  assumes "setup_while held h this head_node tail_node = Inr h'"
  obtains h0 h1 h3 h4 where
    "this < length h" "statement_type (kind (h ! this)) = TypeWhile"
    "is_StatementBlock h head_node" "is_StatementBlock h tail_node"
    "length (stmt_succ (h ! head_node)) = 2"
    "only_expiry (h[this := (h ! this)\<lparr>kind := StatementWhile (Some head_node) (Some tail_node)\<rparr>]) h0"
    "kind (h ! this) = StatementWhile None None \<longrightarrow>
       h0 = h[this := (h ! this)\<lparr>kind := StatementWhile (Some head_node) (Some tail_node)\<rparr>]"
    "unlink_preds h0 head_node this (Some tail_node) = Inr h1"
    "replace_successor (h1 @ [new_StatementBreak]) head_node (stmt_succ (h ! head_node) ! 0) (length h1)
       = Inr h3"
    "add_successor (drop_temporary h3 (length h1)) this (stmt_succ (h ! head_node) ! 0) = Inr h4"
    "increment_block_until h4 tail_node = Inr h'"
proof -
  let ?g = "h[this := (h ! this)\<lparr>kind := StatementWhile (Some head_node) (Some tail_node)\<rparr>]"
  let ?holders = "this # head_node # tail_node # held"
  from assms have v: "this < length h" "statement_type (kind (h ! this)) = TypeWhile"
    "is_StatementBlock h head_node" "is_StatementBlock h tail_node"
    by (auto simp: setup_while_def split: if_splits)
  from assign_loop_fields [OF v(1,2), of ?holders head_node tail_node] obtain ha h0 where
    a: "assign_loop_head ?holders h this head_node = Inr ha"
      "assign_loop_tail ?holders ha this tail_node = Inr h0"
    and e: "only_expiry ?g h0"
    and f: "kind (h ! this) = StatementWhile None None \<longrightarrow> h0 = ?g"
    by blast
  have "stmt_succ (?g ! n) = stmt_succ (h ! n)" for n
    using nth_update_field [of stmt_succ "\<lambda>x. x\<lparr>kind := StatementWhile (Some head_node) (Some tail_node)\<rparr>" h this n]
    by simp
  with e have s0: "stmt_succ (h0 ! n) = stmt_succ (h ! n)" for n
    by (simp add: only_expiry_def)
  have two: "length (stmt_succ (h ! head_node)) = 2"
  proof (rule ccontr)
    assume "length (stmt_succ (h ! head_node)) \<noteq> 2"
    with assms v a show False by (simp add: setup_while_def Let_def bindE_Inr s0)
  qed
  with assms v a have rest: "bindE (unlink_preds h0 head_node this (Some tail_node)) (\<lambda>h1.
             bindE (replace_successor (h1 @ [new_StatementBreak]) head_node
                      (stmt_succ (h ! head_node) ! 0) (length h1)) (\<lambda>h3.
               bindE (add_successor (drop_temporary h3 (length h1)) this
                        (stmt_succ (h ! head_node) ! 0)) (\<lambda>h4.
                 increment_block_until h4 tail_node))) = Inr h'"
    by (simp add: setup_while_def Let_def bindE_Inr s0)
  then obtain h1 h3 h4 where
    "unlink_preds h0 head_node this (Some tail_node) = Inr h1"
    "replace_successor (h1 @ [new_StatementBreak]) head_node (stmt_succ (h ! head_node) ! 0) (length h1)
       = Inr h3"
    "add_successor (drop_temporary h3 (length h1)) this (stmt_succ (h ! head_node) ! 0) = Inr h4"
    "increment_block_until h4 tail_node = Inr h'"
    by (auto simp: bindE_Inr_iff)
  with v two e f show ?thesis by (rule that)
qed

lemma is_StatementBlock_not_while:
  "is_StatementBlock h n \<Longrightarrow> statement_type (kind (h ! this)) = TypeWhile \<Longrightarrow> n \<noteq> this"
  by (auto simp: is_StatementBlock_def)

text \<open>The heap after the two assignments, read through the heap before them.\<close>

lemma assigned_fields:
  assumes "only_expiry (h[this := (h ! this)\<lparr>kind := k\<rparr>]) h0"
  shows "length h0 = length h"
    and "\<And>n. stmt_succ (h0 ! n) = stmt_succ (h ! n)"
    and "\<And>n. stmt_pred (h0 ! n) = stmt_pred (h ! n)"
    and "\<And>n. n \<noteq> this \<Longrightarrow> kind (h0 ! n) = kind (h ! n)"
    and "this < length h \<Longrightarrow> kind (h0 ! this) = k"
proof -
  let ?g = "h[this := (h ! this)\<lparr>kind := k\<rparr>]"
  from assms show "length h0 = length h" by (simp add: only_expiry_def)
  have "stmt_succ (?g ! n) = stmt_succ (h ! n)" for n
    using nth_update_field [of stmt_succ "\<lambda>x. x\<lparr>kind := k\<rparr>" h this n] by simp
  with assms show "stmt_succ (h0 ! n) = stmt_succ (h ! n)" for n by (simp add: only_expiry_def)
  have "stmt_pred (?g ! n) = stmt_pred (h ! n)" for n
    using nth_update_field [of stmt_pred "\<lambda>x. x\<lparr>kind := k\<rparr>" h this n] by simp
  with assms show "stmt_pred (h0 ! n) = stmt_pred (h ! n)" for n by (simp add: only_expiry_def)
  show "kind (h0 ! n) = kind (h ! n)" if "n \<noteq> this" for n
    using assms that by (simp add: only_expiry_def)
  show "kind (h0 ! this) = k" if "this < length h"
    using assms that by (simp add: only_expiry_def)
qed

text \<open>What a successful \<open>setup_while\<close> leaves behind, as far as it does not depend on
  how the edges were rewired.\<close>

lemma setup_while_result:
  assumes "setup_while held h this head_node tail_node = Inr h'"
  shows "length h' = Suc (length h)"
    and "kind (h' ! this) = StatementWhile (Some head_node) (Some tail_node)"
    and "kind (h' ! length h) = StatementBreak"
    and "\<And>n. n < length h \<Longrightarrow> n \<noteq> this \<Longrightarrow> n \<noteq> tail_node \<Longrightarrow> kind (h' ! n) = kind (h ! n)"
    and "\<exists>b f u gb gc. kind (h ! tail_node) = StatementBlock b f u gb gc
           \<and> kind (h' ! tail_node) = StatementBlock b f (u + 1) gb gc"
proof -
  let ?k = "StatementWhile (Some head_node) (Some tail_node)"
  from assms obtain h0 h1 h3 h4 where
    v: "this < length h" "statement_type (kind (h ! this)) = TypeWhile"
      "is_StatementBlock h head_node" "is_StatementBlock h tail_node"
    and e: "only_expiry (h[this := (h ! this)\<lparr>kind := ?k\<rparr>]) h0"
    and u: "unlink_preds h0 head_node this (Some tail_node) = Inr h1"
    and r: "replace_successor (h1 @ [new_StatementBreak]) head_node (stmt_succ (h ! head_node) ! 0)
        (length h1) = Inr h3"
    and a: "add_successor (drop_temporary h3 (length h1)) this (stmt_succ (h ! head_node) ! 0) = Inr h4"
    and i: "increment_block_until h4 tail_node = Inr h'"
    by (rule setup_while_steps)
  note s1 = unlink_preds_shape [OF u, unfolded same_shape_def]
  note s3 = replace_successor_shape [OF r, unfolded same_shape_def]
  note d3 = drop_temporary_only_expiry [of h3 "length h1", unfolded only_expiry_def]
  note l0 = assigned_fields(1) [OF e]
  have tw: "tail_node \<noteq> this" using v(4,2) by (rule is_StatementBlock_not_while)
  have tl: "tail_node < length h" using v(4) by (simp add: is_StatementBlock_def)
  have len1: "length h1 = length h" using s1 l0 by simp
  have len3: "length h3 = Suc (length h)" using s3 len1 by simp
  have len4: "length h4 = Suc (length h)" using add_successor_length [OF a] d3 len3 by simp
  show "length h' = Suc (length h)"
    using increment_block_until_result(1) [OF i] len4 by simp
  have k4: "kind (h4 ! n) = kind ((h1 @ [new_StatementBreak]) ! n)" for n
    using add_successor_kind [OF a] s3 d3 by simp
  have k1: "kind (h1 ! n) = kind (h0 ! n)" for n using s1 by simp
  show "kind (h' ! this) = StatementWhile (Some head_node) (Some tail_node)"
    using increment_block_until_result(4) [OF i, of this] tw k4 [of this] k1 [of this] v(1) len1
      assigned_fields(5) [OF e]
    by (simp add: nth_append)
  show "kind (h' ! length h) = StatementBreak"
    using increment_block_until_result(4) [OF i, of "length h"] tl k4 [of "length h"] len1
    by (simp add: nth_append new_StatementBreak_def)
  show "kind (h' ! n) = kind (h ! n)" if "n < length h" "n \<noteq> this" "n \<noteq> tail_node" for n
    using increment_block_until_result(4) [OF i, of n] that k4 [of n] k1 [of n] len1
      assigned_fields(4) [OF e, of n]
    by (simp add: nth_append)
  from increment_block_until_result(5) [OF i] obtain b f u gb gc where
    "kind (h4 ! tail_node) = StatementBlock b f u gb gc"
    "kind (h' ! tail_node) = StatementBlock b f (u + 1) gb gc"
    by blast
  moreover have "kind (h4 ! tail_node) = kind (h ! tail_node)"
    using k4 [of tail_node] k1 [of tail_node] len1 tl tw assigned_fields(4) [OF e, of tail_node]
    by (simp add: nth_append)
  ultimately show "\<exists>b f u gb gc. kind (h ! tail_node) = StatementBlock b f u gb gc
      \<and> kind (h' ! tail_node) = StatementBlock b f (u + 1) gb gc"
    by auto
qed

lemma setup_while_succ_this:
  assumes "setup_while held h this head_node tail_node = Inr h'" and "stmt_succ (h ! this) = []"
  shows "stmt_succ (h' ! this) = [stmt_succ (h ! head_node) ! 0]"
proof -
  let ?k = "StatementWhile (Some head_node) (Some tail_node)"
  from assms(1) obtain h0 h1 h3 h4 where
    v: "this < length h"
    and e: "only_expiry (h[this := (h ! this)\<lparr>kind := ?k\<rparr>]) h0"
    and u: "unlink_preds h0 head_node this (Some tail_node) = Inr h1"
    and r: "replace_successor (h1 @ [new_StatementBreak]) head_node (stmt_succ (h ! head_node) ! 0)
        (length h1) = Inr h3"
    and a: "add_successor (drop_temporary h3 (length h1)) this (stmt_succ (h ! head_node) ! 0) = Inr h4"
    and i: "increment_block_until h4 tail_node = Inr h'"
    by (rule setup_while_steps)
  note s1 = unlink_preds_shape [OF u, unfolded same_shape_def]
  note s3 = replace_successor_shape [OF r, unfolded same_shape_def]
  note d3 = drop_temporary_only_expiry [of h3 "length h1", unfolded only_expiry_def]
  have "stmt_succ (h0 ! this) = []" using assms(2) assigned_fields(2) [OF e] by simp
  with s1 have 1: "stmt_succ (h1 ! this) = []" and len1: "length h1 = length h"
    by (simp_all del: length_0_conv add: length_0_conv [symmetric] assigned_fields(1) [OF e])
  then have "stmt_succ ((h1 @ [new_StatementBreak]) ! this) = []" using v by (simp add: nth_append)
  with s3 have "stmt_succ (h3 ! this) = []"
    by (simp del: length_0_conv add: length_0_conv [symmetric])
  with d3 have "stmt_succ (drop_temporary h3 (length h1) ! this) = []" by simp
  then have "stmt_succ (h4 ! this) = [stmt_succ (h ! head_node) ! 0]"
    by (simp add: add_successor_succ [OF a])
  then show ?thesis by (simp add: increment_block_until_result(2) [OF i])
qed

lemma bindE_no_expects:
  "m \<noteq> Inl ExpectsFailed \<Longrightarrow> (\<And>x. f x \<noteq> Inl ExpectsFailed) \<Longrightarrow> bindE m f \<noteq> Inl ExpectsFailed"
  by (cases m) (simp_all add: bindE_def)

lemma unlink_preds_no_expects: "unlink_preds h this new_succ except \<noteq> Inl ExpectsFailed"
  by (simp add: unlink_preds_def unlink_preds_loop_no_expects)

lemma replace_successor_no_expects: "replace_successor h this o_node n_node \<noteq> Inl ExpectsFailed"
  by (simp add: replace_successor_def replace_successor_loop_no_expects)

lemma add_successor_no_expects: "add_successor h a b \<noteq> Inl ExpectsFailed"
  by (simp add: add_successor_def Let_def)

lemma increment_block_until_no_expects: "increment_block_until h n \<noteq> Inl ExpectsFailed"
  by (simp add: increment_block_until_def split: StatementKind.splits)

lemma setup_while_no_expects:
  assumes "length (stmt_succ (h ! head_node)) = 2"
  shows "setup_while held h this head_node tail_node \<noteq> Inl ExpectsFailed"
proof (cases "this < length h \<and> statement_type (kind (h ! this)) = TypeWhile
    \<and> is_StatementBlock h head_node \<and> is_StatementBlock h tail_node")
  case False
  then show ?thesis by (auto simp: setup_while_def)
next
  case True
  let ?holders = "this # head_node # tail_node # held"
  from True assign_loop_fields [of this h ?holders head_node tail_node] obtain ha h0 where
    a: "assign_loop_head ?holders h this head_node = Inr ha"
      "assign_loop_tail ?holders ha this tail_node = Inr h0"
    and e: "only_expiry (h[this := (h ! this)\<lparr>kind := StatementWhile (Some head_node) (Some tail_node)\<rparr>]) h0"
    by blast
  note s0 = assigned_fields(2) [OF e]
  show ?thesis
    unfolding setup_while_def Let_def using True assms
    by (simp add: a bindE_Inr s0)
      (intro bindE_no_expects unlink_preds_no_expects replace_successor_no_expects
        add_successor_no_expects increment_block_until_no_expects)
qed

lemma setup_while_rejects:
  assumes "this < length h" and "statement_type (kind (h ! this)) = TypeWhile"
    and "is_StatementBlock h head_node" and "is_StatementBlock h tail_node"
    and "length (stmt_succ (h ! head_node)) \<noteq> 2"
  shows "setup_while held h this head_node tail_node = Inl ExpectsFailed"
proof -
  let ?holders = "this # head_node # tail_node # held"
  from assign_loop_fields [OF assms(1,2), of ?holders head_node tail_node] obtain ha h0 where
    a: "assign_loop_head ?holders h this head_node = Inr ha"
      "assign_loop_tail ?holders ha this tail_node = Inr h0"
    and e: "only_expiry (h[this := (h ! this)\<lparr>kind := StatementWhile (Some head_node) (Some tail_node)\<rparr>]) h0"
    by blast
  note s0 = assigned_fields(2) [OF e]
  show ?thesis using assms by (simp add: setup_while_def Let_def a bindE_Inr s0)
qed

text \<open>
  Claim C9. \<open>StatementWhile::setup\<close> expects a head with exactly two successors and
  \<open>StatementWhile::break_node\<close> a while node with exactly one. When the expectation
  holds the \<open>Expects\<close> branch is not taken; a head with another number of successors is
  rejected by the \<open>Expects\<close> and nothing is structured; and a successful \<open>setup\<close> on a
  freshly made while node establishes the expectation of \<open>break_node\<close>, which then
  returns the head's former first successor. This holds whatever nodes the callers
  hold.
\<close>

theorem expects_unreachable:
  "(length (stmt_succ (h ! head_node)) = 2 \<longrightarrow>
      setup_while held h this head_node tail_node \<noteq> Inl ExpectsFailed)
   \<and> (this < length h \<and> statement_type (kind (h ! this)) = TypeWhile
       \<and> is_StatementBlock h head_node \<and> is_StatementBlock h tail_node
       \<and> length (stmt_succ (h ! head_node)) \<noteq> 2 \<longrightarrow>
      setup_while held h this head_node tail_node = Inl ExpectsFailed)
   \<and> (setup_while held h this head_node tail_node = Inr h' \<longrightarrow>
      length (stmt_succ (h ! head_node)) = 2)
   \<and> (w < length g \<and> length (stmt_succ (g ! w)) = 1 \<longrightarrow> break_node g w = Inr (stmt_succ (g ! w) ! 0))
   \<and> (w < length g \<and> length (stmt_succ (g ! w)) \<noteq> 1 \<longrightarrow> break_node g w = Inl ExpectsFailed)
   \<and> (setup_while held h this head_node tail_node = Inr h' \<and> stmt_succ (h ! this) = [] \<longrightarrow>
      break_node h' this = Inr (stmt_succ (h ! head_node) ! 0))"
proof -
  have 1: "length (stmt_succ (h ! head_node)) = 2"
    if "setup_while held h this head_node tail_node = Inr h'"
    using that by (rule setup_while_steps)
  have 2: "break_node h' this = Inr (stmt_succ (h ! head_node) ! 0)"
    if "setup_while held h this head_node tail_node = Inr h'" "stmt_succ (h ! this) = []"
  proof -
    from that(1) have "this < length h" by (rule setup_while_steps)
    then have "this < length h'" using setup_while_result(1) [OF that(1)] by simp
    then show ?thesis using setup_while_succ_this [OF that] by (simp add: break_node_def)
  qed
  show ?thesis
    using setup_while_no_expects [of h head_node held this tail_node]
      setup_while_rejects [of this h head_node tail_node held] 1 2
    by (auto simp: break_node_def)
qed

lemma to_statements_cfg_while: "to_statements cfg_while 0 = Inr (0, heap_while)"
  by (simp add: to_statements_def cfg_while_def heap_while_def mk_cfg_def mk_block_def bindE_def
      map_emplace_def new_StatementBlock_def add_successor_def)

lemma setup_while_heap_while:
  "setup_while [] (heap_while @ [new_StatementWhile]) 3 0 2 = Inr heap_while_folded"
  by (simp add: setup_while_def heap_while_def heap_while_folded_def new_StatementWhile_def
      new_StatementBreak_def is_StatementBlock_def unlink_preds_def replace_successor_def
      add_successor_def increment_block_until_def std_replace_def erase_at_def bindE_def
      assign_loop_head_def assign_loop_tail_def drop_temporary_def has_owner_def owned_def
      lock_def)

theorem expects_unreachable_witness:
  "length (stmt_succ ((heap_while @ [new_StatementWhile]) ! 0)) = 2
   \<and> setup_while [] (heap_while @ [new_StatementWhile]) 3 0 2 = Inr heap_while_folded
   \<and> length (stmt_succ ((heap_while @ [new_StatementWhile]) ! 2)) \<noteq> 2
   \<and> setup_while [] (heap_while @ [new_StatementWhile]) 3 2 2 = Inl ExpectsFailed
   \<and> break_node heap_while_folded 3 = Inr 1
   \<and> break_node heap_while_folded 1 = Inl ExpectsFailed"
proof -
  let ?h = "heap_while @ [new_StatementWhile]"
  have v: "(3::nat) < length ?h" "statement_type (kind (?h ! 3)) = TypeWhile"
    "is_StatementBlock ?h 0" "is_StatementBlock ?h 2" "stmt_succ (?h ! 3) = []"
    "length (stmt_succ (?h ! 0)) = 2" "length (stmt_succ (?h ! 2)) \<noteq> 2"
    "stmt_succ (?h ! 0) ! 0 = 1"
    by (simp_all add: heap_while_def new_StatementWhile_def is_StatementBlock_def)
  have g: "(1::nat) < length heap_while_folded" "length (stmt_succ (heap_while_folded ! 1)) \<noteq> 1"
    by (simp_all add: heap_while_folded_def)
  show ?thesis
    using expects_unreachable [of ?h 0 "[]" 3 2 heap_while_folded 1 heap_while_folded]
      expects_unreachable [of ?h 2 "[]" 3 2 heap_while_folded 1 heap_while_folded]
      setup_while_heap_while v g
    by simp
qed

subsection \<open>The edges after \<open>setup_while\<close>\<close>















text \<open>
  Which nodes a successful \<open>setup_while\<close> on a fresh while node has destroyed: none of
  those that were there, and not the break node if the head, not destroyed itself, has
  taken it as a successor.
\<close>

lemma setup_while_expired:
  assumes ok: "setup_while held h this head_node tail_node = Inr h'"
    and fresh: "kind (h ! this) = StatementWhile None None"
  shows "\<And>n. n < length h \<Longrightarrow> expired (h' ! n) = expired (h ! n)"
    and "\<not> expired (h ! head_node) \<Longrightarrow> length h \<in> set (stmt_succ (h' ! head_node)) \<Longrightarrow>
           \<not> expired (h' ! length h)"
proof -
  let ?k = "StatementWhile (Some head_node) (Some tail_node)"
  let ?g = "h[this := (h ! this)\<lparr>kind := ?k\<rparr>]"
  let ?bn = "stmt_succ (h ! head_node) ! 0"
  from ok obtain h0 h1 h3 h4 where
    v: "this < length h" "statement_type (kind (h ! this)) = TypeWhile"
      "is_StatementBlock h head_node" "is_StatementBlock h tail_node"
    and f: "kind (h ! this) = StatementWhile None None \<longrightarrow> h0 = ?g"
    and u: "unlink_preds h0 head_node this (Some tail_node) = Inr h1"
    and r: "replace_successor (h1 @ [new_StatementBreak]) head_node ?bn (length h1) = Inr h3"
    and a: "add_successor (drop_temporary h3 (length h1)) this ?bn = Inr h4"
    and i: "increment_block_until h4 tail_node = Inr h'"
    by (rule setup_while_steps)
  from f fresh have h0: "h0 = ?g" by simp
  have x0: "expired (?g ! n) = expired (h ! n)" for n
    using nth_update_field [of expired "\<lambda>x. x\<lparr>kind := ?k\<rparr>" h this n] by simp
  note sh1 = unlink_preds_shape [OF u, unfolded same_shape_def h0]
  note sh3 = replace_successor_shape [OF r, unfolded same_shape_def]
  note d3 = drop_temporary_only_expiry [of h3 "length h1", unfolded only_expiry_def]
  have hw: "head_node \<noteq> this" using v(3,2) by (rule is_StatementBlock_not_while)
  have hl: "head_node < length h" using v(3) by (simp add: is_StatementBlock_def)
  have len1: "length h1 = length h" using sh1 by simp
  have len3: "length h3 = Suc (length h)" using sh3 len1 by simp
  have x3: "expired (h3 ! n) = expired (h ! n)" if "n < length h" for n
    using that sh3 sh1 len1 by (simp add: nth_append x0)
  have x3b: "\<not> expired (h3 ! length h)"
    using sh3 len1 by (simp add: nth_append new_StatementBreak_def)
  have x': "expired (h' ! n) = expired (drop_temporary h3 (length h1) ! n)" for n
    by (simp add: increment_block_until_result(6) [OF i] add_successor_expired [OF a])
  show "expired (h' ! n) = expired (h ! n)" if "n < length h" for n
    using that len1 len3 by (simp add: x' drop_temporary_expired x3)
  show "\<not> expired (h' ! length h)"
    if "\<not> expired (h ! head_node)" "length h \<in> set (stmt_succ (h' ! head_node))"
  proof -
    have "stmt_succ (h' ! head_node) = stmt_succ (h3 ! head_node)"
      using hw d3 by (simp add: increment_block_until_result(2) [OF i] add_successor_succ [OF a])
    with that(2) have "length h \<in> set (owned (h3 ! head_node))" by (simp add: owned_def)
    moreover have "\<not> expired (h3 ! head_node)" using that(1) x3 [OF hl] by simp
    moreover have "head_node < length h3" using hl len3 by simp
    ultimately have "has_owner h3 [] (length h)" by (intro has_ownerI)
    then show ?thesis using len1 len3 x3b by (simp add: x' drop_temporary_expired)
  qed
qed

subsection \<open>\<open>setup_while\<close> returns on a well-formed graph\<close>









subsection \<open>Structuring loops\<close>

text \<open>Whatever the search of \<open>structure_dowhile\<close> holds in its two pointers is located.\<close>

lemma find_loop_nodes_located:
  assumes "depth_first_stmt h entry_node True (find_loop_nodes h loop) (None, None) = Inr (hs, ts)"
  shows "(\<forall>x. hs = Some x \<longrightarrow> located h entry_node (head loop) x)
       \<and> (\<forall>x. ts = Some x \<longrightarrow> located h entry_node (tail loop) x)"
proof -
  let ?I = "\<lambda>s. (\<forall>x. fst s = Some x \<longrightarrow> located h entry_node (head loop) x)
       \<and> (\<forall>x. snd s = Some x \<longrightarrow> located h entry_node (tail loop) x)"
  let ?P = "\<lambda>n. (entry_node, n) \<in> (succ_edges h)\<^sup>*"
  have step: "?I (snd (find_loop_nodes h loop s m))" if "?I s" "?P m" "m < length h" for s m
    using that
    by (cases s; cases "kind (h ! m)") (auto simp: find_loop_nodes_def located_def Let_def)
  have closed: "?P x" if "?P m" "m < length h" "x \<in> set (stmt_succ (h ! m))" for m x
  proof -
    from that(2,3) have "(m, x) \<in> succ_edges h" by (simp add: succ_edges_def)
    with that(1) show ?thesis by (rule rtrancl_into_rtrancl)
  qed
  have "?I (hs, ts)"
    by (rule depth_first_stmt_inv [where I = ?I and P = ?P, OF step closed _ _ assms]) simp_all
  then show ?thesis by simp
qed

lemma structure_dowhile_append:
  "structure_dowhile held bl h entry_node (loops1 @ loops2) =
     bindE (structure_dowhile held bl h entry_node loops1)
       (\<lambda>(h', entry_node'). structure_dowhile held bl h' entry_node' loops2)"
proof (induction loops1 arbitrary: h entry_node)
  case Nil
  then show ?case by (simp add: bindE_def)
next
  case (Cons loop loops1)
  show ?case
  proof (cases "structure_loop held h entry_node loop")
    case (Inl e)
    then show ?thesis by (simp add: bindE_def)
  next
    case (Inr r)
    then show ?thesis using Cons.IH by (cases r) (simp add: bindE_def)
  qed
qed

text \<open>
  In a graph without dangling pointers whose entry has not been destroyed, a node
  reached from the entry has not been destroyed and has an owner, so that dropping a
  local pointer to it destroys nothing.
\<close>

lemma reached_has_owner:
  assumes "(entry_node, n) \<in> (succ_edges h)\<^sup>*" and "no_dangling h"
    and "entry_node < length h" and "\<not> expired (h ! entry_node)"
  shows "n < length h \<and> \<not> expired (h ! n) \<and> has_owner h (xs @ entry_node # held) n"
  using assms(1)
proof (induction rule: rtrancl_induct)
  case base
  then show ?case using assms(3,4) by (simp add: has_owner_def)
next
  case (step m n)
  from step.hyps(2) have ml: "m < length h" and mem: "n \<in> set (stmt_succ (h ! m))"
    by (simp_all add: succ_edges_def)
  from mem have o: "n \<in> set (owned (h ! m))" by (simp add: owned_def)
  from step.IH have lm: "\<not> expired (h ! m)" by simp
  from no_danglingD [OF assms(2) ml lm o] has_ownerI [OF ml lm o] show ?case by simp
qed

lemma has_owner_mono: "has_owner h holders n \<Longrightarrow> set holders \<subseteq> set holders' \<Longrightarrow> has_owner h holders' n"
  by (auto simp: has_owner_def)

lemma drop_locals_kept:
  "\<forall>n \<in> set (pointees locals). has_owner h holders n \<Longrightarrow> drop_locals holders h locals = Inr h"
proof (induction locals)
  case Nil
  then show ?case by simp
next
  case (Cons p locals)
  show ?case
  proof (cases p)
    case None
    with Cons show ?thesis by (simp add: pointees_def)
  next
    case (Some n)
    with Cons.prems have "has_owner h holders n" by (simp add: pointees_def)
    then have "has_owner h (pointees locals @ holders) n" by (rule has_owner_mono) simp
    then have "drop_pointer (pointees locals @ holders) h n = Inr h" by (simp add: drop_pointer_kept)
    moreover from Cons.prems Some have "\<forall>n \<in> set (pointees locals). has_owner h holders n"
      by (simp add: pointees_def)
    ultimately show ?thesis using Some Cons.IH by (simp add: bindE_Inr)
  qed
qed

text \<open>
  The end of an iteration that has made a while node. The while node is destroyed
  exactly when nothing owns it: the entry is another node and no node has it as a
  successor. While it lives it holds the head and the tail, and nothing is destroyed.
\<close>

lemma drop_locals_while:
  assumes d: "drop_locals holders h [Some w, Some tail_node, Some head_node] = Inr h'"
    and w: "w < length h" "\<not> expired (h ! w)"
      "kind (h ! w) = StatementWhile (Some head_node) (Some tail_node)"
  shows "only_expiry h h'"
    and "expired (h' ! w) \<longleftrightarrow> \<not> has_owner h (tail_node # head_node # holders) w"
    and "has_owner h (tail_node # head_node # holders) w \<Longrightarrow> h' = h"
proof -
  show e: "only_expiry h h'" using d by (rule drop_locals_only_expiry)
  have kept: "h' = h" if o: "has_owner h (tail_node # head_node # holders) w"
  proof -
    have "has_owner h holders tail_node" "has_owner h holders head_node"
      using w by (auto intro!: has_ownerI [of w] simp: owned_def)
    moreover have "drop_pointer (tail_node # head_node # holders) h w = Inr h"
      using o by (simp add: drop_pointer_kept)
    moreover have "drop_locals holders h [Some tail_node, Some head_node] = Inr h"
      using calculation(1,2) by (intro drop_locals_kept) (simp add: pointees_def)
    ultimately show ?thesis using d by (simp add: pointees_def bindE_Inr)
  qed
  then show "h' = h" if "has_owner h (tail_node # head_node # holders) w" using that .
  show "expired (h' ! w) \<longleftrightarrow> \<not> has_owner h (tail_node # head_node # holders) w"
  proof (cases "has_owner h (tail_node # head_node # holders) w")
    case True
    with kept w(2) show ?thesis by simp
  next
    case False
    from d obtain h1 where 1: "drop_pointer (tail_node # head_node # holders) h w = Inr h1"
      and 2: "drop_locals holders h1 [Some tail_node, Some head_node] = Inr h'"
      by (auto simp: pointees_def bindE_Inr_iff)
    from drop_pointer_destroys [OF 1 w(1) False] have "expired (h1 ! w)" .
    moreover have "w < length h1" using drop_pointer_only_expiry [OF 1] w(1)
      by (simp add: only_expiry_def)
    ultimately have "expired (h' ! w)"
      using drop_locals_only_expiry [OF 2] by (simp add: only_expiry_def)
    with False show ?thesis by simp
  qed
qed

text \<open>
  Claim C3. \<open>structure_dowhile\<close> handles the loops in list order, each on the graph
  the earlier ones left. For one loop: the nodes it works on are block statements with
  the ids \<open>loop.head\<close> and \<open>loop.tail\<close> that the forward depth-first search reached from
  the entry node. When no such node exists for either id the loop is skipped and the
  entry stays; heap and entry are returned as they were (in a graph without dangling
  pointers; in any graph nothing changes but that nodes may have been destroyed).
  When both ids have such nodes the loop is not skipped: a new while node is made and
  set up for two of them, and the entry becomes that while node if the head node was
  the entry and stays as it was if not. After the set-up nothing changes but that
  nodes may be destroyed at the end of the iteration: the new while node is destroyed
  exactly when it is not the entry and no node has it as a successor, and nothing is
  destroyed when it is not.
\<close>

theorem structure_dowhile_by_loop:
  "structure_dowhile held bl h entry_node [] = Inr (h, entry_node)
   \<and> structure_dowhile held bl h entry_node (loops1 @ loop # loops2) =
       bindE (structure_dowhile held bl h entry_node loops1) (\<lambda>(h1, entry1).
         bindE (structure_loop held h1 entry1 loop) (\<lambda>(h2, entry2).
           structure_dowhile held bl h2 entry2 loops2))
   \<and> (heap_closed h \<and> entry_node < length h
       \<and> ((\<forall>n. \<not> located h entry_node (head loop) n) \<or> (\<forall>n. \<not> located h entry_node (tail loop) n)) \<longrightarrow>
      (\<exists>g. structure_loop held h entry_node loop = Inr (g, entry_node) \<and> only_expiry h g)
      \<and> (no_dangling h \<and> \<not> expired (h ! entry_node) \<longrightarrow>
           structure_loop held h entry_node loop = Inr (h, entry_node)))
   \<and> (heap_closed h \<and> entry_node < length h
       \<and> located h entry_node (head loop) x \<and> located h entry_node (tail loop) y \<longrightarrow>
      (\<exists>head_node tail_node.
          located h entry_node (head loop) head_node \<and> located h entry_node (tail loop) tail_node
        \<and> structure_loop held h entry_node loop =
            bindE (setup_while (entry_node # held) (h @ [new_StatementWhile]) (length h)
                     head_node tail_node)
              (\<lambda>h2. bindE (drop_locals ((if entry_node = head_node then length h else entry_node) # held)
                             h2 [Some (length h), Some tail_node, Some head_node])
                 (\<lambda>h3. Inr (h3, if entry_node = head_node then length h else entry_node)))))
   \<and> (structure_loop held h entry_node loop = Inr (h', entry_node') \<longrightarrow>
        only_expiry h h' \<and> entry_node' = entry_node
        \<or> (\<exists>head_node tail_node h2.
              located h entry_node (head loop) head_node
            \<and> located h entry_node (tail loop) tail_node
            \<and> setup_while (entry_node # held) (h @ [new_StatementWhile]) (length h)
                 head_node tail_node = Inr h2
            \<and> only_expiry h2 h'
            \<and> kind (h' ! length h) = StatementWhile (Some head_node) (Some tail_node)
            \<and> entry_node' = (if entry_node = head_node then length h else entry_node)
            \<and> (expired (h' ! length h) \<longleftrightarrow>
                 \<not> has_owner h2 (tail_node # head_node # entry_node' # held) (length h))
            \<and> (has_owner h2 (tail_node # head_node # entry_node' # held) (length h) \<longrightarrow> h' = h2)))"
proof -
  have order: "structure_dowhile held bl h entry_node (loops1 @ loop # loops2) =
       bindE (structure_dowhile held bl h entry_node loops1) (\<lambda>(h1, entry1).
         bindE (structure_loop held h1 entry1 loop) (\<lambda>(h2, entry2).
           structure_dowhile held bl h2 entry2 loops2))"
    by (simp add: structure_dowhile_append)
  have skip: "(\<exists>g. structure_loop held h entry_node loop = Inr (g, entry_node) \<and> only_expiry h g)
      \<and> (no_dangling h \<and> \<not> expired (h ! entry_node) \<longrightarrow>
           structure_loop held h entry_node loop = Inr (h, entry_node))"
    if c: "heap_closed h" "entry_node < length h"
      and a: "(\<forall>n. \<not> located h entry_node (head loop) n) \<or> (\<forall>n. \<not> located h entry_node (tail loop) n)"
  proof -
    from depth_first_stmt_returns [OF c, of "find_loop_nodes h loop" "(None, None)"]
    obtain hs ts where r: "depth_first_stmt h entry_node True (find_loop_nodes h loop) (None, None)
        = Inr (hs, ts)"
      by (metis surj_pair)
    note l = find_loop_nodes_located [OF r]
    from l a have n: "hs = None \<or> ts = None" by auto
    then have s: "structure_loop held h entry_node loop =
        bindE (drop_locals (entry_node # held) h [ts, hs]) (\<lambda>h'. Inr (h', entry_node))"
      unfolding structure_loop_def r by (auto simp: bindE_Inr split: option.splits)
    from drop_locals_returns obtain g where g: "drop_locals (entry_node # held) h [ts, hs] = Inr g"
      by blast
    have 1: "\<exists>g. structure_loop held h entry_node loop = Inr (g, entry_node) \<and> only_expiry h g"
      unfolding s using g drop_locals_only_expiry [OF g] by (simp add: bindE_Inr)
    have 2: "structure_loop held h entry_node loop = Inr (h, entry_node)"
      if w: "no_dangling h" "\<not> expired (h ! entry_node)"
    proof -
      have "has_owner h (entry_node # held) m" if "m \<in> set (pointees [ts, hs])" for m
      proof -
        from that l have "(entry_node, m) \<in> (succ_edges h)\<^sup>*"
          by (auto simp: pointees_def located_def split: option.splits)
        from reached_has_owner [OF this w(1) c(2) w(2), of "[]" held] show ?thesis by simp
      qed
      then have "drop_locals (entry_node # held) h [ts, hs] = Inr h"
        by (intro drop_locals_kept) simp
      then show ?thesis unfolding s by (simp add: bindE_Inr)
    qed
    from 1 2 show ?thesis by blast
  qed
  have found: "only_expiry h h' \<and> entry_node' = entry_node
        \<or> (\<exists>head_node tail_node h2.
              located h entry_node (head loop) head_node
            \<and> located h entry_node (tail loop) tail_node
            \<and> setup_while (entry_node # held) (h @ [new_StatementWhile]) (length h)
                 head_node tail_node = Inr h2
            \<and> only_expiry h2 h'
            \<and> kind (h' ! length h) = StatementWhile (Some head_node) (Some tail_node)
            \<and> entry_node' = (if entry_node = head_node then length h else entry_node)
            \<and> (expired (h' ! length h) \<longleftrightarrow>
                 \<not> has_owner h2 (tail_node # head_node # entry_node' # held) (length h))
            \<and> (has_owner h2 (tail_node # head_node # entry_node' # held) (length h) \<longrightarrow> h' = h2))"
    if s: "structure_loop held h entry_node loop = Inr (h', entry_node')"
  proof -
    from s obtain hs ts where r: "depth_first_stmt h entry_node True (find_loop_nodes h loop) (None, None)
        = Inr (hs, ts)"
      by (auto simp: structure_loop_def bindE_Inr_iff)
    note l = find_loop_nodes_located [OF r]
    show ?thesis
    proof (cases "\<exists>x y. hs = Some x \<and> ts = Some y")
      case False
      then have "hs = None \<or> ts = None" by auto
      with s r have "drop_locals (entry_node # held) h [ts, hs] = Inr h'" "entry_node' = entry_node"
        by (auto simp: structure_loop_def bindE_Inr bindE_Inr_iff split: option.splits)
      with drop_locals_only_expiry [of "entry_node # held" h "[ts, hs]" h'] show ?thesis by simp
    next
      case True
      then obtain x y where xy: "hs = Some x" "ts = Some y" by blast
      let ?e = "if entry_node = x then length h else entry_node"
      from s r xy obtain h2 where
        w: "setup_while (entry_node # held) (h @ [new_StatementWhile]) (length h) x y = Inr h2"
        and d: "drop_locals (?e # held) h2 [Some (length h), Some y, Some x] = Inr h'"
        and e: "entry_node' = ?e"
        by (auto simp: structure_loop_def bindE_Inr bindE_Inr_iff Let_def)
      have fr: "kind ((h @ [new_StatementWhile]) ! length h) = StatementWhile None None"
        by (simp add: new_StatementWhile_def)
      have len2: "length h < length h2" using setup_while_result(1) [OF w] by simp
      have k2: "kind (h2 ! length h) = StatementWhile (Some x) (Some y)"
        using setup_while_result(2) [OF w] .
      have x2: "\<not> expired (h2 ! length h)"
        using setup_while_expired(1) [OF w fr, of "length h"] by (simp add: new_StatementWhile_def)
      note dl = drop_locals_while [OF d len2 x2 k2]
      from dl(1) k2 have kh: "kind (h' ! length h) = StatementWhile (Some x) (Some y)"
        by (simp add: only_expiry_def)
      from l xy have lx: "located h entry_node (head loop) x" "located h entry_node (tail loop) y"
        by simp_all
      show ?thesis
        by (rule disjI2, rule exI [of _ x], rule exI [of _ y], rule exI [of _ h2])
          (use lx w e dl kh in simp)
    qed
  qed
  have both: "\<exists>head_node tail_node.
          located h entry_node (head loop) head_node \<and> located h entry_node (tail loop) tail_node
        \<and> structure_loop held h entry_node loop =
            bindE (setup_while (entry_node # held) (h @ [new_StatementWhile]) (length h)
                     head_node tail_node)
              (\<lambda>h2. bindE (drop_locals ((if entry_node = head_node then length h else entry_node) # held)
                             h2 [Some (length h), Some tail_node, Some head_node])
                 (\<lambda>h3. Inr (h3, if entry_node = head_node then length h else entry_node)))"
    if c: "heap_closed h" "entry_node < length h"
      and l: "located h entry_node (head loop) x" "located h entry_node (tail loop) y"
  proof -
    from find_loop_nodes_complete [OF c l] obtain hn tn where
      r: "depth_first_stmt h entry_node True (find_loop_nodes h loop) (None, None) = Inr (Some hn, Some tn)"
      by blast
    from find_loop_nodes_located [OF r] have "located h entry_node (head loop) hn"
      "located h entry_node (tail loop) tn" by simp_all
    moreover have "structure_loop held h entry_node loop =
        bindE (setup_while (entry_node # held) (h @ [new_StatementWhile]) (length h) hn tn)
          (\<lambda>h2. bindE (drop_locals ((if entry_node = hn then length h else entry_node) # held)
                         h2 [Some (length h), Some tn, Some hn])
             (\<lambda>h3. Inr (h3, if entry_node = hn then length h else entry_node)))"
      unfolding structure_loop_def r by (simp add: bindE_Inr Let_def)
    ultimately show ?thesis by blast
  qed
  show ?thesis using order skip found both by simp
qed


lemmas structure_loop_eval =
  structure_loop_def depth_first_stmt_def find_loop_nodes_def setup_while_def
  new_StatementWhile_def new_StatementBreak_def is_StatementBlock_def unlink_preds_def
  replace_successor_def add_successor_def increment_block_until_def std_replace_def erase_at_def
  bindE_def assign_loop_head_def assign_loop_tail_def drop_temporary_def has_owner_def owned_def
  lock_def drop_pointer_def destroy_def pointees_def

lemma structure_loop_heap_while:
  "structure_loop [] heap_while 0 loop_0_1 = Inr (heap_while_folded, 3)"
  by (simp add: structure_loop_eval loop_0_1_def heap_while_def heap_while_folded_def)

lemma structure_loop_heap_while_skip:
  "structure_loop [] heap_while 0 loop_7_1 = Inr (heap_while, 0)"
  by (simp add: structure_loop_eval loop_7_1_def heap_while_def)

lemma structure_loop_heap_entry_while:
  "structure_loop [] heap_entry_while 0 loop_1_2 = Inr (heap_entry_while_folded, 0)"
  by (simp add: structure_loop_eval loop_1_2_def heap_entry_while_def heap_entry_while_folded_def)

lemma to_statements_cfg_two_loops: "to_statements cfg_two_loops 0 = Inr (0, heap_two_loops)"
  by (simp add: to_statements_def cfg_two_loops_def heap_two_loops_def mk_cfg_def mk_block_def
      bindE_def map_emplace_def new_StatementBlock_def add_successor_def)

lemma structure_loop_heap_two_loops:
  "structure_loop [] heap_two_loops 0 loop_2_1 = Inr (heap_two_loops_folded, 0)"
  by (simp add: structure_loop_eval loop_2_1_def heap_two_loops_def heap_two_loops_folded_def)

lemma structure_loop_heap_two_loops_folded:
  "structure_loop [] heap_two_loops_folded 0 loop_3_4 = Inl NullPointer"
  by (simp add: structure_loop_eval loop_3_4_def heap_two_loops_folded_def)

lemma no_block_7_in_heap_while: "\<not> located heap_while 0 (head loop_7_1) n"
proof
  assume l: "located heap_while 0 (head loop_7_1) n"
  then have "n < 3" by (simp add: located_def heap_while_def)
  then consider "n = 0" | "n = 1" | "n = 2" by linarith
  then show False
    using l by cases (simp_all add: located_def heap_while_def loop_7_1_def)
qed

theorem structure_dowhile_by_loop_witness:
  "heap_closed heap_while \<and> (0::nat) < length heap_while
   \<and> no_dangling heap_while \<and> \<not> expired (heap_while ! 0)
   \<and> (\<forall>n. \<not> located heap_while 0 (head loop_7_1) n)
   \<and> structure_loop [] heap_while 0 loop_7_1 = Inr (heap_while, 0)
   \<and> structure_loop [] heap_while 0 loop_0_1 = Inr (heap_while_folded, 3)
   \<and> heap_closed heap_entry_while \<and> (0::nat) < length heap_entry_while
   \<and> located heap_entry_while 0 (head loop_1_2) 1 \<and> located heap_entry_while 0 (tail loop_1_2) 3
   \<and> structure_loop [] heap_entry_while 0 loop_1_2 = Inr (heap_entry_while_folded, 0)
   \<and> (\<exists>head_node tail_node h2.
          located heap_entry_while 0 (head loop_1_2) head_node
        \<and> located heap_entry_while 0 (tail loop_1_2) tail_node
        \<and> setup_while [0] (heap_entry_while @ [new_StatementWhile]) (length heap_entry_while)
             head_node tail_node = Inr h2
        \<and> only_expiry h2 heap_entry_while_folded
        \<and> kind (heap_entry_while_folded ! length heap_entry_while)
            = StatementWhile (Some head_node) (Some tail_node)
        \<and> 0 = (if 0 = head_node then length heap_entry_while else 0)
        \<and> (expired (heap_entry_while_folded ! length heap_entry_while) \<longleftrightarrow>
             \<not> has_owner h2 [tail_node, head_node, 0] (length heap_entry_while))
        \<and> (has_owner h2 [tail_node, head_node, 0] (length heap_entry_while) \<longrightarrow>
             heap_entry_while_folded = h2))
   \<and> structure_dowhile [] cfg_two_loops heap_two_loops 0 [loop_2_1, loop_3_4] = Inl NullPointer
   \<and> expired (heap_two_loops_folded ! 6) \<and> 6 \<in> set (stmt_pred (heap_two_loops_folded ! 3))"
proof -
  have c: "heap_closed heap_while" "(0::nat) < length heap_while"
    "no_dangling heap_while" "\<not> expired (heap_while ! 0)"
    by (simp_all add: heap_closed_def heap_while_def no_dangling_def owned_def All_less_Suc)
  have ce: "heap_closed heap_entry_while" "(0::nat) < length heap_entry_while"
    by (simp_all add: heap_closed_def heap_entry_while_def)
  have "(0, 1) \<in> succ_edges heap_entry_while" "(1, 3) \<in> succ_edges heap_entry_while"
    by (simp_all add: succ_edges_def heap_entry_while_def)
  then have "(0, 1) \<in> (succ_edges heap_entry_while)\<^sup>*" "(0, 3) \<in> (succ_edges heap_entry_while)\<^sup>*"
    by auto
  then have r: "(0, 1) \<in> (succ_edges heap_entry_while)\<^sup>* \<and> (0, 3) \<in> (succ_edges heap_entry_while)\<^sup>*"
    by simp
  have k: "\<exists>f u gb gc. kind (heap_entry_while ! 1) = StatementBlock 1 f u gb gc"
    "\<exists>f u gb gc. kind (heap_entry_while ! 3) = StatementBlock 2 f u gb gc"
    "(1::nat) < length heap_entry_while" "(3::nat) < length heap_entry_while"
    by (auto simp: heap_entry_while_def)
  from r k have l: "located heap_entry_while 0 (head loop_1_2) 1"
    "located heap_entry_while 0 (tail loop_1_2) 3"
    by (simp_all add: located_def loop_1_2_def)
  have ne: "\<not> only_expiry heap_entry_while heap_entry_while_folded"
    by (simp add: only_expiry_def heap_entry_while_def heap_entry_while_folded_def)
  have x: "expired (heap_two_loops_folded ! 6)" "6 \<in> set (stmt_pred (heap_two_loops_folded ! 3))"
    by (simp_all add: heap_two_loops_folded_def)
  have two: "structure_dowhile [] cfg_two_loops heap_two_loops 0 [loop_2_1, loop_3_4] = Inl NullPointer"
    using structure_dowhile_by_loop [of "[]" cfg_two_loops heap_two_loops 0 "[loop_2_1]" loop_3_4 "[]"]
      structure_loop_heap_two_loops structure_loop_heap_two_loops_folded
    by (simp add: bindE_def)
  show ?thesis
    using structure_dowhile_by_loop [of "[]" undefined heap_while 0 "[]" loop_7_1 "[]" 0 2 heap_while 0]
      structure_dowhile_by_loop [of "[]" undefined heap_entry_while 0 "[]" loop_1_2 "[]" 1 3
        heap_entry_while_folded 0]
      c ce l x ne two no_block_7_in_heap_while structure_loop_heap_while structure_loop_heap_while_skip
      structure_loop_heap_entry_while
    by simp
qed

subsection \<open>Every statement made from a block is owned\<close>

text \<open>
  When \<open>to_statements\<close> returns, no node has been destroyed, no pointer dangles, and
  every node is the entry or a successor of a node: the map \<open>block2node\<close> can go without
  a node being destroyed.
\<close>

lemma to_statements_owned:
  assumes "cfg_closed bl True" and "entry < length (blocks bl)"
  shows "\<exists>h. to_statements bl entry = Inr (0, h)
    \<and> list_all (\<lambda>cell. \<not> expired cell) h \<and> no_dangling h
    \<and> (\<forall>n < length h. has_owner h [0] n)
    \<and> (\<forall>locals. set (pointees locals) \<subseteq> {..<length h} \<longrightarrow> drop_locals [0] h locals = Inr h)"
proof -
  from to_statements_spec [OF assms] obtain h m where run: "to_statements bl entry = Inr (0, h)"
    and inv: "stmt_inv bl (h, m)" and me: "m entry = Some 0"
    and comp: "\<forall>n < length h. complete bl (h, m) n"
    and dom: "dom m = reachable_blocks bl entry"
    by blast
  from inv have live: "list_all (\<lambda>cell. \<not> expired cell) h" and closed: "heap_closed h"
    by (simp_all add: stmt_inv_def)
  have alive: "\<not> expired (h ! n)" if "n < length h" for n
    using live that by (simp add: none_expired_iff)
  have blocks: "owned (h ! n) = stmt_succ (h ! n)" if "n < length h" for n
  proof -
    from inv that obtain b where "kind (h ! n) = StatementBlock b 0 0 False False"
      by (auto simp: stmt_inv_def)
    then show ?thesis by (simp add: owned_def)
  qed
  have nd: "no_dangling h"
    unfolding no_dangling_def using closed alive blocks by (auto simp: heap_closed_iff)
  have own: "has_owner h [0] n" if n: "n < length h" for n
  proof -
    from inv n obtain b where k: "kind (h ! n) = StatementBlock b 0 0 False False"
      and mb: "m b = Some n"
      by (auto simp: stmt_inv_def)
    from mb dom have "(entry, b) \<in> (cfg_edges bl)\<^sup>*" by (auto simp: reachable_blocks_def)
    then show ?thesis
    proof (cases rule: rtranclE)
      case base
      with me mb show ?thesis by (simp add: has_owner_def)
    next
      case (step a)
      from step(1) dom obtain na where na: "m a = Some na" by (auto simp: reachable_blocks_def)
      from step(2) have "b \<in> set (succ (blocks bl ! a))" by (simp add: cfg_edges_def)
      from complete_edge [OF inv comp na this] mb have mem: "n \<in> set (stmt_succ (h ! na))" by auto
      from inv na have nal: "na < length h" by (auto simp: stmt_inv_def)
      from mem have "n \<in> set (owned (h ! na))" by (simp add: blocks [OF nal])
      with nal alive [OF nal] show ?thesis by (intro has_ownerI)
    qed
  qed
  have "drop_locals [0] h locals = Inr h" if "set (pointees locals) \<subseteq> {..<length h}" for locals
    using that own by (intro drop_locals_kept) auto
  with run live nd own show ?thesis by blast
qed

subsection \<open>What \<open>setup\<close> does to the edges around the head\<close>


lemma to_statements_cfg_entry_while: "to_statements cfg_entry_while 0 = Inr (0, heap_entry_while)"
  by (simp add: to_statements_def cfg_entry_while_def heap_entry_while_def mk_cfg_def mk_block_def
      bindE_def map_emplace_def new_StatementBlock_def add_successor_def)








end
